theory Spec2Isabelle
  imports Complex_Main "HOL-Library.Word"
begin

unbundle bit_operations_syntax

section \<open>A full-duplex software UART on Timer/Counter 1 of the ATtiny85\<close>

text \<open>
  This theory embeds \<^verbatim>\<open>fd-serial.c\<close> function by function. The C integer types are
  machine words: \<^verbatim>\<open>uint8_t\<close> and the 8-bit I/O registers are \<open>8 word\<close>,
  \<^verbatim>\<open>uint32_t\<close> is \<open>32 word\<close>. Arithmetic that C performs in \<^verbatim>\<open>int\<close> after integer
  promotion is written out on \<open>int\<close> and converted back where the C code stores the
  result. Plain \<^verbatim>\<open>char\<close> is signed, as it is by default with avr-gcc, the compiler
  whose headers (\<^verbatim>\<open>avr/io.h\<close>, \<^verbatim>\<open>avr/interrupt.h\<close>) the file includes; the one
  function that depends on it is also given for an unsigned \<^verbatim>\<open>char\<close>.
\<close>

type_synonym u8 = "8 word"
type_synonym u32 = "32 word"

subsection \<open>Build-time constants\<close>

definition CPU_FREQ :: nat where
  "CPU_FREQ = 8000000"

definition PRESCALER_DIVISOR :: nat where
  "PRESCALER_DIVISOR = 4"

definition SERIAL_TOP :: nat where
  "SERIAL_TOP = 207"

definition SERIAL_HALFBIT :: nat where
  "SERIAL_HALFBIT = 104"

text \<open>
  Bit numbers of the ATtiny85 registers, as the device header of avr-libc gives them
  (\<^verbatim>\<open>TCCR1\<close>: CTC1 7, COM1A1 5, COM1A0 4, CS11 1, CS10 0; \<^verbatim>\<open>TIMSK\<close>: OCIE1A 6,
  OCIE1B 5; \<^verbatim>\<open>TIFR\<close>: OCF1B 5; \<^verbatim>\<open>GIMSK\<close>: INT0 6; \<^verbatim>\<open>GIFR\<close>: INTF0 6;
  \<^verbatim>\<open>MCUCR\<close>: ISC01 1).
\<close>

definition CS10 :: nat where "CS10 = 0"
definition CS11 :: nat where "CS11 = 1"
definition COM1A0 :: nat where "COM1A0 = 4"
definition COM1A1 :: nat where "COM1A1 = 5"
definition CTC1 :: nat where "CTC1 = 7"
definition OCIE1A :: nat where "OCIE1A = 6"
definition OCIE1B :: nat where "OCIE1B = 5"
definition OCF1B :: nat where "OCF1B = 5"
definition INT0 :: nat where "INT0 = 6"
definition INTF0 :: nat where "INTF0 = 6"
definition ISC01 :: nat where "ISC01 = 1"

definition PRESCALER :: u8 where
  "PRESCALER = push_bit CS11 1 OR push_bit CS10 1"

text \<open>
  Modelled from the spec: the pin masks \<^verbatim>\<open>S1_TX_PIN\<close> and \<^verbatim>\<open>S1_RX_PIN\<close> are
  defined in \<^verbatim>\<open>fd-serial.h\<close>, which is not among the sources. The file header of
  \<^verbatim>\<open>fd-serial.c\<close> places TX on PORTB3 and RX on PORTB2 (the INT0 pin).
\<close>

definition S1_TX_PIN :: u8 where
  "S1_TX_PIN = push_bit 3 1"

definition S1_RX_PIN :: u8 where
  "S1_RX_PIN = push_bit 2 1"

subsection \<open>The UART instance and the peripheral registers\<close>

text \<open>
  Modelled from the spec: \<^verbatim>\<open>struct fd_uart\<close> is declared in \<^verbatim>\<open>fd-serial.h\<close>, which
  is not among the sources. The fields are the ones \<^verbatim>\<open>fd-serial.c\<close> reads and writes;
  they are bytes, except \<open>delay\<close>, which receives a \<^verbatim>\<open>uint32_t\<close>, and \<open>rx_buf\<close>, an
  array of \<^verbatim>\<open>RING_BUFFER\<close> bytes.
\<close>

record fd_uart =
  send_ready :: u8
  tx_state :: u8
  send_byte :: u8
  send_bits :: u8
  delay :: u32
  available :: u8
  rx_state :: u8
  recv_byte :: u8
  recv_shift :: u8
  recv_bits :: u8
  rx_buf :: "u8 list"
  rx_head :: u8
  rx_tail :: u8

text \<open>
  The machine state is the UART instance \<^verbatim>\<open>fd_uart1\<close> together with the I/O registers
  the code touches. \<open>PINB\<close> and \<open>TCNT1\<close> are driven by the hardware: the first shows the
  levels on the pins, the second is the running counter.
\<close>

record mcu = fd_uart +
  TCCR1 :: u8
  TCNT1 :: u8
  OCR1A :: u8
  OCR1B :: u8
  OCR1C :: u8
  TIMSK :: u8
  TIFR :: u8
  GIMSK :: u8
  GIFR :: u8
  MCUCR :: u8
  DDRB :: u8
  PORTB :: u8
  PINB :: u8

text \<open>
  The build is in single-slot mode when \<^verbatim>\<open>RING_BUFFER\<close> is not defined (\<open>None\<close>) and
  in ring mode with capacity \<open>n\<close> when it is defined as \<open>n\<close> (\<open>Some n\<close>).
\<close>

type_synonym build = "nat option"

subsection \<open>Timer and interrupt switches\<close>

definition starttimer :: "mcu \<Rightarrow> mcu" where
  "starttimer s = s\<lparr>TCCR1 := TCCR1 s OR PRESCALER\<rparr>"

definition stoptimer :: "mcu \<Rightarrow> mcu" where
  "stoptimer s = s\<lparr>TCCR1 := TCCR1 s AND NOT PRESCALER\<rparr>"

text \<open>
  The flag registers \<^verbatim>\<open>GIFR\<close> and \<^verbatim>\<open>TIFR\<close> are cleared by writing ones: a write of
  \<open>v\<close> clears every flag whose bit is set in \<open>v\<close>.
\<close>

definition write_flags :: "u8 \<Rightarrow> u8 \<Rightarrow> u8" where
  "write_flags old v = old AND NOT v"

definition enable_int0 :: "mcu \<Rightarrow> mcu" where
  "enable_int0 s =
    (let s = s\<lparr>GIFR := write_flags (GIFR s) (GIFR s OR push_bit INTF0 1)\<rparr>
     in s\<lparr>GIMSK := GIMSK s OR push_bit INT0 1\<rparr>)"

definition disable_int0 :: "mcu \<Rightarrow> mcu" where
  "disable_int0 s = s\<lparr>GIMSK := GIMSK s AND NOT (push_bit INT0 1)\<rparr>"

definition start_tx :: "mcu \<Rightarrow> mcu" where
  "start_tx s = s\<lparr>TIMSK := TIMSK s OR push_bit OCIE1A 1\<rparr>"

definition stop_tx :: "mcu \<Rightarrow> mcu" where
  "stop_tx s = s\<lparr>TIMSK := TIMSK s AND NOT (push_bit OCIE1A 1)\<rparr>"

definition start_rx :: "mcu \<Rightarrow> mcu" where
  "start_rx s =
    (let s = s\<lparr>TIFR := write_flags (TIFR s) (TIFR s OR push_bit OCF1B 1)\<rparr>
     in s\<lparr>TIMSK := TIMSK s OR push_bit OCIE1B 1\<rparr>)"

definition stop_rx :: "mcu \<Rightarrow> mcu" where
  "stop_rx s = s\<lparr>TIMSK := TIMSK s AND NOT (push_bit OCIE1B 1)\<rparr>"

text \<open>Reading the switches back: which interrupt sources are unmasked.\<close>

definition tx_tick_enabled :: "mcu \<Rightarrow> bool" where
  "tx_tick_enabled s = bit (TIMSK s) OCIE1A"

definition rx_tick_enabled :: "mcu \<Rightarrow> bool" where
  "rx_tick_enabled s = bit (TIMSK s) OCIE1B"

definition int0_enabled :: "mcu \<Rightarrow> bool" where
  "int0_enabled s = bit (GIMSK s) INT0"

subsection \<open>Foreground API\<close>

definition fdserial_init :: "build \<Rightarrow> mcu \<Rightarrow> mcu" where
  "fdserial_init rb s =
    (let com_mode = (push_bit COM1A1 0 OR push_bit COM1A0 0 :: u8);
         ctc_mode = (push_bit CTC1 1 :: u8);
         s = s\<lparr>send_ready := 1\<rparr>;
         s = s\<lparr>tx_state := 0\<rparr>;
         s = s\<lparr>available := 0\<rparr>;
         s = s\<lparr>rx_state := 0\<rparr>;
         s = (case rb of None \<Rightarrow> s | Some n \<Rightarrow> s\<lparr>rx_head := 0, rx_tail := 0\<rparr>);
         s = s\<lparr>MCUCR := MCUCR s OR push_bit ISC01 1\<rparr>;
         s = s\<lparr>TCNT1 := 0\<rparr>;
         s = s\<lparr>OCR1A := 16\<rparr>;
         s = s\<lparr>OCR1B := 32\<rparr>;
         s = s\<lparr>OCR1C := of_nat SERIAL_TOP\<rparr>;
         s = s\<lparr>DDRB := DDRB s OR S1_TX_PIN\<rparr>;
         s = s\<lparr>PORTB := PORTB s OR S1_TX_PIN\<rparr>;
         s = s\<lparr>DDRB := DDRB s AND NOT S1_RX_PIN\<rparr>;
         s = s\<lparr>PORTB := PORTB s OR S1_RX_PIN\<rparr>;
         s = stoptimer s;
         s = s\<lparr>TCCR1 := ctc_mode OR com_mode\<rparr>;
         s = starttimer s
     in enable_int0 s)"

text \<open>
  In ring mode the difference of the two indices is computed in \<^verbatim>\<open>int\<close>, stored in a
  \<^verbatim>\<open>char\<close> (8 bits) and read back, and the sum \<^verbatim>\<open>d + RING_BUFFER\<close> is again an
  \<^verbatim>\<open>int\<close> that the return type \<^verbatim>\<open>uint8_t\<close> truncates. Whether plain \<^verbatim>\<open>char\<close> is
  signed is up to the compiler: \<open>fdserial_available_c\<close> takes it as a parameter, and
  \<open>fdserial_available\<close> is the function as avr-gcc compiles it by default, with a signed
  \<^verbatim>\<open>char\<close>.
\<close>

definition fdserial_available_c :: "bool \<Rightarrow> build \<Rightarrow> mcu \<Rightarrow> u8" where
  "fdserial_available_c signed_char rb s =
    (case rb of
       Some n \<Rightarrow>
         (let c = (word_of_int (uint (rx_head s) - uint (rx_tail s)) :: u8);
              d = (if signed_char then sint c else uint c)
          in if d < 0 then word_of_int (d + int n) else word_of_int d)
     | None \<Rightarrow> available s)"

definition fdserial_available :: "build \<Rightarrow> mcu \<Rightarrow> u8" where
  "fdserial_available rb s = fdserial_available_c True rb s"

definition fdserial_sendok :: "mcu \<Rightarrow> u8" where
  "fdserial_sendok s = send_ready s"

text \<open>
  The blocking calls spin in an empty loop until an interrupt handler changes a field.
  A call made in a state where the loop condition holds returns \<open>None\<close>: the
  foreground alone makes no progress there. Otherwise the body runs to its end.
\<close>

definition fdserial_send :: "u8 \<Rightarrow> mcu \<Rightarrow> mcu option" where
  "fdserial_send send_arg s =
    (if send_ready s = 0 then None
     else
       (let s = s\<lparr>OCR1A := TCNT1 s\<rparr>;
            s = s\<lparr>send_ready := 0\<rparr>;
            s = s\<lparr>send_byte := send_arg\<rparr>;
            s = s\<lparr>tx_state := 1\<rparr>
        in Some (start_tx s)))"

text \<open>
  An index is compared with \<^verbatim>\<open>RING_BUFFER - 1\<close> in \<^verbatim>\<open>int\<close>; \<open>advance\<close> is the
  wrap-around that the source writes out at each of its three places. An access to
  \<open>rx_buf\<close> past its end has no defined result in C, and none in HOL either; the
  statements about the contents of the ring are made for indices inside the array.
\<close>

definition advance :: "nat \<Rightarrow> u8 \<Rightarrow> u8" where
  "advance n i = (if uint i = int n - 1 then 0 else i + 1)"

definition fdserial_recv :: "build \<Rightarrow> mcu \<Rightarrow> (u8 \<times> mcu) option" where
  "fdserial_recv rb s =
    (case rb of
       Some n \<Rightarrow>
         (if rx_head s = rx_tail s then None
          else
            (let c = rx_buf s ! unat (rx_tail s);
                 s = s\<lparr>rx_tail := advance n (rx_tail s)\<rparr>
             in Some (c, s)))
     | None \<Rightarrow>
         (if available s = 0 then None
          else
            (let c = recv_byte s;
                 s = s\<lparr>recv_byte := 0\<rparr>;
                 s = s\<lparr>available := 0\<rparr>
             in Some (c, s))))"

text \<open>
  \<^verbatim>\<open>duration * CPU_FREQ\<close> is a 32-bit unsigned product and wraps; the two divisions
  and the subtraction are 32-bit unsigned as well. \<^verbatim>\<open>remainder\<close> keeps the low byte.
  \<^verbatim>\<open>TCNT1 - remainder\<close> is an \<^verbatim>\<open>int\<close> that the 8-bit register \<^verbatim>\<open>OCR1A\<close> truncates.
\<close>

definition fdserial_alarm :: "u32 \<Rightarrow> mcu \<Rightarrow> mcu option" where
  "fdserial_alarm duration s =
    (let timer_ticks = (duration * of_nat CPU_FREQ) div of_nat PRESCALER_DIVISOR div 1000;
         cycles = timer_ticks div of_nat (SERIAL_TOP + 1);
         remainder = (ucast (timer_ticks - cycles * of_nat (SERIAL_TOP + 1)) :: u8)
     in if send_ready s = 0 then None
        else
          (let s = s\<lparr>OCR1A := word_of_int (uint (TCNT1 s) - uint remainder)\<rparr>;
               s = s\<lparr>delay := cycles\<rparr>;
               s = s\<lparr>send_ready := 0\<rparr>;
               s = s\<lparr>tx_state := 5\<rparr>
           in Some s))"

subsection \<open>Interrupt handlers\<close>

definition ISR_TIMER1_COMPA :: "mcu \<Rightarrow> mcu" where
  "ISR_TIMER1_COMPA s =
    (if tx_state s = 0 then s
     else if tx_state s = 1 then
       (let s = s\<lparr>PORTB := PORTB s AND NOT S1_TX_PIN\<rparr>;
            s = s\<lparr>tx_state := 2\<rparr>
        in s\<lparr>send_bits := 8\<rparr>)
     else if tx_state s = 2 then
       (let s = (if send_byte s AND 1 \<noteq> 0
                 then s\<lparr>PORTB := PORTB s OR S1_TX_PIN\<rparr>
                 else s\<lparr>PORTB := PORTB s AND NOT S1_TX_PIN\<rparr>);
            s = s\<lparr>send_byte := drop_bit 1 (send_byte s)\<rparr>;
            s = s\<lparr>send_bits := send_bits s - 1\<rparr>
        in if send_bits s = 0 then s\<lparr>tx_state := 3\<rparr> else s)
     else if tx_state s = 3 then
       (let s = s\<lparr>PORTB := PORTB s OR S1_TX_PIN\<rparr>
        in s\<lparr>tx_state := 4\<rparr>)
     else if tx_state s = 4 then
       (let s = s\<lparr>send_ready := 1\<rparr>;
            s = s\<lparr>tx_state := 0\<rparr>
        in stop_tx s)
     else if tx_state s = 5 then
       (let s = s\<lparr>delay := delay s - 1\<rparr>
        in if delay s = 0 then s\<lparr>send_ready := 1, tx_state := 0\<rparr> else s)
     else s)"

text \<open>
  \<open>publish\<close> is the block of state 3 between \<^verbatim>\<open>if (read_bit)\<close> and \<^verbatim>\<open>#endif\<close>: it
  hands the received byte to the foreground, through the ring or through the single slot.
\<close>

definition publish :: "build \<Rightarrow> mcu \<Rightarrow> mcu" where
  "publish rb s =
    (case rb of
       Some n \<Rightarrow>
         (let s = s\<lparr>rx_buf := (rx_buf s)[unat (rx_head s) := recv_shift s]\<rparr>;
              s = s\<lparr>rx_head := advance n (rx_head s)\<rparr>
          in if rx_head s = rx_tail s then s\<lparr>rx_tail := advance n (rx_tail s)\<rparr> else s)
     | None \<Rightarrow>
         (let s = s\<lparr>recv_byte := recv_shift s\<rparr>
          in s\<lparr>available := 1\<rparr>))"

definition ISR_TIMER1_COMPB :: "build \<Rightarrow> mcu \<Rightarrow> mcu" where
  "ISR_TIMER1_COMPB rb s =
    (let read_bit = PINB s AND S1_RX_PIN
     in if rx_state s = 0 then
          (let s = s\<lparr>rx_state := 2\<rparr> in s\<lparr>recv_bits := 8\<rparr>)
        else if rx_state s = 1 then
          (let s = s\<lparr>rx_state := 2\<rparr> in s\<lparr>recv_bits := 8\<rparr>)
        else if rx_state s = 2 then
          (let s = s\<lparr>recv_shift := drop_bit 1 (recv_shift s)\<rparr>;
               s = (if read_bit \<noteq> 0 then s\<lparr>recv_shift := recv_shift s OR 0x80\<rparr> else s);
               s = s\<lparr>recv_bits := recv_bits s - 1\<rparr>
           in if recv_bits s = 0 then s\<lparr>rx_state := 3\<rparr> else s)
        else if rx_state s = 3 then
          (if read_bit \<noteq> 0 then
             (let s = publish rb s;
                  s = s\<lparr>rx_state := 0\<rparr>;
                  s = stop_rx s
              in enable_int0 s)
           else s)
        else s)"

definition ISR_INT0 :: "mcu \<Rightarrow> mcu" where
  "ISR_INT0 s =
    (let tcnt1 = TCNT1 s;
         s = (if SERIAL_HALFBIT \<le> unat tcnt1
              then s\<lparr>OCR1B := word_of_int (uint tcnt1 - int SERIAL_HALFBIT)\<rparr>
              else s\<lparr>OCR1B := word_of_int (uint tcnt1 + int SERIAL_HALFBIT)\<rparr>);
         s = disable_int0 s
     in start_rx s)"

subsection \<open>Hardware around the code\<close>

text \<open>
  The counter of Timer/Counter 1 in CTC mode counts up and starts again at zero after it
  has matched the top register \<^verbatim>\<open>OCR1C\<close>; a compare channel fires when the counter
  equals its compare register. \<open>first_match fuel tp ocr c\<close> is the number of counts
  after which a counter now at \<open>c\<close> equals \<open>ocr\<close> for the first time, looking at most
  \<open>fuel\<close> counts ahead (\<open>None\<close>: no match within \<open>fuel\<close> counts).
\<close>

definition count_step :: "u8 \<Rightarrow> u8 \<Rightarrow> u8" where
  "count_step tp c = (if c = tp then 0 else c + 1)"

fun first_match :: "nat \<Rightarrow> u8 \<Rightarrow> u8 \<Rightarrow> u8 \<Rightarrow> nat option" where
  "first_match 0 tp ocr c = None"
| "first_match (Suc fuel) tp ocr c =
    (let c' = count_step tp c
     in if c' = ocr then Some 1 else map_option Suc (first_match fuel tp ocr c'))"

text \<open>
  After a power-on reset the I/O registers read zero and the static instance
  \<^verbatim>\<open>fd_uart1\<close> is zero-initialised; \<open>PINB\<close> shows the levels on the pins.
\<close>

definition power_on :: "build \<Rightarrow> u8 \<Rightarrow> mcu" where
  "power_on rb pins =
    \<lparr>send_ready = 0, tx_state = 0, send_byte = 0, send_bits = 0, delay = 0,
     available = 0, rx_state = 0, recv_byte = 0, recv_shift = 0, recv_bits = 0,
     rx_buf = (case rb of None \<Rightarrow> [] | Some n \<Rightarrow> replicate n 0),
     rx_head = 0, rx_tail = 0,
     TCCR1 = 0, TCNT1 = 0, OCR1A = 0, OCR1B = 0, OCR1C = 0, TIMSK = 0, TIFR = 0,
     GIMSK = 0, GIFR = 0, MCUCR = 0, DDRB = 0, PORTB = 0, PINB = pins\<rparr>"

subsection \<open>Driving the handlers\<close>

text \<open>
  The receive line is bit \<open>S1_RX_PIN\<close> of \<open>PINB\<close>; \<open>rx_sample level\<close> puts a level on
  it. \<open>rx_ticks rb levels\<close> runs one B-compare interrupt per element of \<open>levels\<close>, each
  finding the line at that level. \<open>rx_frame rb b\<close> is a whole character on the wire: the
  falling edge, the sample in the middle of the start bit, the eight data bits of \<open>b\<close>
  with the least significant first, and the stop bit.
\<close>

definition rx_sample :: "bool \<Rightarrow> mcu \<Rightarrow> mcu" where
  "rx_sample level s =
    (if level then s\<lparr>PINB := PINB s OR S1_RX_PIN\<rparr>
     else s\<lparr>PINB := PINB s AND NOT S1_RX_PIN\<rparr>)"

fun rx_ticks :: "build \<Rightarrow> bool list \<Rightarrow> mcu \<Rightarrow> mcu" where
  "rx_ticks rb [] s = s"
| "rx_ticks rb (level # levels) s =
     rx_ticks rb levels (ISR_TIMER1_COMPB rb (rx_sample level s))"

definition rx_frame :: "build \<Rightarrow> u8 \<Rightarrow> mcu \<Rightarrow> mcu" where
  "rx_frame rb b s = rx_ticks rb ([False] @ map (bit b) [0..<8] @ [True]) (ISR_INT0 s)"

text \<open>
  The transmit line is bit \<open>S1_TX_PIN\<close> of \<open>PORTB\<close>. \<open>tx_ticks n\<close> is the state after
  \<open>n\<close> A-compare interrupts, \<open>tx_levels n\<close> the levels on the line after each of them.
\<close>

definition tx_level :: "mcu \<Rightarrow> bool" where
  "tx_level s = (PORTB s AND S1_TX_PIN \<noteq> 0)"

fun tx_ticks :: "nat \<Rightarrow> mcu \<Rightarrow> mcu" where
  "tx_ticks 0 s = s"
| "tx_ticks (Suc n) s = tx_ticks n (ISR_TIMER1_COMPA s)"

fun tx_levels :: "nat \<Rightarrow> mcu \<Rightarrow> bool list" where
  "tx_levels 0 s = []"
| "tx_levels (Suc n) s = tx_level (ISR_TIMER1_COMPA s) # tx_levels n (ISR_TIMER1_COMPA s)"

text \<open>\<open>recv_many rb k\<close> is \<open>k\<close> calls of \<open>fdserial_recv\<close> in a row; it blocks when one does.\<close>

fun recv_many :: "build \<Rightarrow> nat \<Rightarrow> mcu \<Rightarrow> (u8 list \<times> mcu) option" where
  "recv_many rb 0 s = Some ([], s)"
| "recv_many rb (Suc k) s =
    (case fdserial_recv rb s of
       None \<Rightarrow> None
     | Some (c, s') \<Rightarrow>
         (case recv_many rb k s' of
            None \<Rightarrow> None
          | Some (cs, s'') \<Rightarrow> Some (c # cs, s'')))"

subsection \<open>Notions used in the proofs\<close>

text \<open>The number of counts a counter at \<open>c\<close> needs to reach \<open>ocr\<close>, with top 207.\<close>

definition counts_to :: "u8 \<Rightarrow> u8 \<Rightarrow> nat" where
  "counts_to ocr c =
    (if unat c < unat ocr then unat ocr - unat c else unat ocr + 208 - unat c)"

text \<open>What one data-bit tick does to the receive shift register and to the TX pin.\<close>

definition shift_in :: "bool \<Rightarrow> u8 \<Rightarrow> u8" where
  "shift_in level x = (if level then drop_bit 1 x OR 0x80 else drop_bit 1 x)"

definition drive_tx :: "bool \<Rightarrow> mcu \<Rightarrow> mcu" where
  "drive_tx level s =
    (if level then s\<lparr>PORTB := PORTB s OR S1_TX_PIN\<rparr>
     else s\<lparr>PORTB := PORTB s AND NOT S1_TX_PIN\<rparr>)"

text \<open>
  A state in which the next received byte is the next byte that \<open>fdserial_recv\<close>
  returns: always in single-slot mode; in ring mode when the ring is empty, has room for
  a byte and its indices are inside the array.
\<close>

definition ready_to_receive :: "build \<Rightarrow> mcu \<Rightarrow> bool" where
  "ready_to_receive rb s =
    (case rb of
       None \<Rightarrow> True
     | Some n \<Rightarrow>
         2 \<le> n \<and> length (rx_buf s) = n \<and> rx_head s = rx_tail s \<and> unat (rx_head s) < n)"

text \<open>
  The number of timer counts that \<open>fdserial_alarm\<close> computes for a duration, written
  on the natural numbers: the product wraps at 32 bits, the divisions round down.
\<close>

definition alarm_ticks :: "u32 \<Rightarrow> nat" where
  "alarm_ticks duration =
     ((unat duration * CPU_FREQ) mod 2 ^ 32) div PRESCALER_DIVISOR div 1000"

text \<open>
  The number of whole bit periods that the specification gives for an alarm of \<open>ms\<close>
  milliseconds: \<open>ceil(ms * F / P / 1000 / (TOP + 1))\<close>.
\<close>

definition spec_alarm_periods :: "nat \<Rightarrow> nat" where
  "spec_alarm_periods ms =
     nat \<lceil>real ms * real CPU_FREQ / real PRESCALER_DIVISOR / 1000 / real (SERIAL_TOP + 1)\<rceil>"

subsection \<open>The foreground under preemption\<close>

text \<open>
  The functions above run a foreground call from its first statement to its last. On the
  device a handler can run between any two accesses of the foreground to the fields of the
  instance and to the I/O registers, which the foreground shares with the handlers (an
  empty loop that waits for a handler relies on every access of the source being an access
  of the machine). For that the bodies of the foreground functions are given a second time, access by access in the
  order of the source: \<open>Load\<close> reads a byte into a temporary, \<open>Store\<close> writes, and what it
  writes may depend on the temporary. A statement that reads and writes its operand
  (\<^verbatim>\<open>|=\<close>, \<^verbatim>\<open>&=\<close>, \<^verbatim>\<open>++\<close>) is a load followed by a store. The 32-bit field \<open>delay\<close> is
  written by one store.
\<close>

datatype access =
    Load "u8 \<Rightarrow> mcu \<Rightarrow> u8"
  | Store "u8 \<Rightarrow> mcu \<Rightarrow> mcu"

definition starttimer_code :: "access list" where
  "starttimer_code =
     [Load (\<lambda>_. TCCR1), Store (\<lambda>v s. s\<lparr>TCCR1 := v OR PRESCALER\<rparr>)]"

definition stoptimer_code :: "access list" where
  "stoptimer_code =
     [Load (\<lambda>_. TCCR1), Store (\<lambda>v s. s\<lparr>TCCR1 := v AND NOT PRESCALER\<rparr>)]"

definition enable_int0_code :: "access list" where
  "enable_int0_code =
     [Load (\<lambda>_. GIFR), Store (\<lambda>v s. s\<lparr>GIFR := write_flags (GIFR s) (v OR push_bit INTF0 1)\<rparr>),
      Load (\<lambda>_. GIMSK), Store (\<lambda>v s. s\<lparr>GIMSK := v OR push_bit INT0 1\<rparr>)]"

definition start_tx_code :: "access list" where
  "start_tx_code =
     [Load (\<lambda>_. TIMSK), Store (\<lambda>v s. s\<lparr>TIMSK := v OR push_bit OCIE1A 1\<rparr>)]"

definition fdserial_init_code :: "build \<Rightarrow> access list" where
  "fdserial_init_code rb =
    (let com_mode = (push_bit COM1A1 0 OR push_bit COM1A0 0 :: u8);
         ctc_mode = (push_bit CTC1 1 :: u8)
     in
     [Store (\<lambda>_ s. s\<lparr>send_ready := 1\<rparr>),
      Store (\<lambda>_ s. s\<lparr>tx_state := 0\<rparr>),
      Store (\<lambda>_ s. s\<lparr>available := 0\<rparr>),
      Store (\<lambda>_ s. s\<lparr>rx_state := 0\<rparr>)] @
     (case rb of
        None \<Rightarrow> []
      | Some n \<Rightarrow> [Store (\<lambda>_ s. s\<lparr>rx_head := 0\<rparr>), Store (\<lambda>_ s. s\<lparr>rx_tail := 0\<rparr>)]) @
     [Load (\<lambda>_. MCUCR), Store (\<lambda>v s. s\<lparr>MCUCR := v OR push_bit ISC01 1\<rparr>),
      Store (\<lambda>_ s. s\<lparr>TCNT1 := 0\<rparr>),
      Store (\<lambda>_ s. s\<lparr>OCR1A := 16\<rparr>),
      Store (\<lambda>_ s. s\<lparr>OCR1B := 32\<rparr>),
      Store (\<lambda>_ s. s\<lparr>OCR1C := of_nat SERIAL_TOP\<rparr>),
      Load (\<lambda>_. DDRB), Store (\<lambda>v s. s\<lparr>DDRB := v OR S1_TX_PIN\<rparr>),
      Load (\<lambda>_. PORTB), Store (\<lambda>v s. s\<lparr>PORTB := v OR S1_TX_PIN\<rparr>),
      Load (\<lambda>_. DDRB), Store (\<lambda>v s. s\<lparr>DDRB := v AND NOT S1_RX_PIN\<rparr>),
      Load (\<lambda>_. PORTB), Store (\<lambda>v s. s\<lparr>PORTB := v OR S1_RX_PIN\<rparr>)] @
     stoptimer_code @
     [Store (\<lambda>_ s. s\<lparr>TCCR1 := ctc_mode OR com_mode\<rparr>)] @
     starttimer_code @
     enable_int0_code)"

definition fdserial_send_code :: "u8 \<Rightarrow> access list" where
  "fdserial_send_code send_arg =
     [Load (\<lambda>_. TCNT1), Store (\<lambda>v s. s\<lparr>OCR1A := v\<rparr>),
      Store (\<lambda>_ s. s\<lparr>send_ready := 0\<rparr>),
      Store (\<lambda>_ s. s\<lparr>send_byte := send_arg\<rparr>),
      Store (\<lambda>_ s. s\<lparr>tx_state := 1\<rparr>)] @
     start_tx_code"

definition fdserial_alarm_code :: "u32 \<Rightarrow> access list" where
  "fdserial_alarm_code duration =
    (let timer_ticks = (duration * of_nat CPU_FREQ) div of_nat PRESCALER_DIVISOR div 1000;
         cycles = timer_ticks div of_nat (SERIAL_TOP + 1);
         remainder = (ucast (timer_ticks - cycles * of_nat (SERIAL_TOP + 1)) :: u8)
     in [Load (\<lambda>_. TCNT1), Store (\<lambda>v s. s\<lparr>OCR1A := word_of_int (uint v - uint remainder)\<rparr>),
         Store (\<lambda>_ s. s\<lparr>delay := cycles\<rparr>),
         Store (\<lambda>_ s. s\<lparr>send_ready := 0\<rparr>),
         Store (\<lambda>_ s. s\<lparr>tx_state := 5\<rparr>)])"

text \<open>
  The control of the foreground: \<open>Idle\<close> between two calls; \<open>Code v c k\<close> with the
  accesses \<open>c\<close> still to make, the temporary at \<open>v\<close>, and \<open>k\<close> to follow; \<open>Spin f k\<close> in
  the loop \<^verbatim>\<open>while (! f) { }\<close>, whose test is one load; \<open>Ring_wait k\<close> in the loop
  \<^verbatim>\<open>while (rx_head == rx_tail) { }\<close>, whose test loads \<open>rx_head\<close> and then, in
  \<open>Ring_wait_tail\<close>, \<open>rx_tail\<close>; \<open>Test p k1 k2\<close> at an \<^verbatim>\<open>if\<close> whose condition is one load.
\<close>

datatype fg =
    Idle
  | Code u8 "access list" fg
  | Spin "mcu \<Rightarrow> u8" fg
  | Ring_wait fg
  | Ring_wait_tail u8 fg
  | Test "mcu \<Rightarrow> bool" fg fg

definition fdserial_init_fg :: "build \<Rightarrow> fg" where
  "fdserial_init_fg rb = Code 0 (fdserial_init_code rb) Idle"

definition fdserial_send_fg :: "u8 \<Rightarrow> fg" where
  "fdserial_send_fg send_arg = Spin send_ready (Code 0 (fdserial_send_code send_arg) Idle)"

text \<open>
  The two branches of the \<^verbatim>\<open>if\<close> that ends the ring variant of \<open>fdserial_recv\<close>, with
  the return that follows them: \<^verbatim>\<open>rx_tail = 0\<close> is a store, \<^verbatim>\<open>rx_tail ++\<close> loads
  \<open>rx_tail\<close> once more, after the test \<^verbatim>\<open>rx_tail == RING_BUFFER - 1\<close> has loaded it, and
  stores the value loaded plus one. The byte that \<open>fdserial_recv\<close> returns is loaded and
  not kept: what follows describes the machine state only.
\<close>

definition rx_tail_wrap :: fg where
  "rx_tail_wrap = Code 0 [Store (\<lambda>_ s. s\<lparr>rx_tail := 0\<rparr>)] Idle"

definition rx_tail_incr :: fg where
  "rx_tail_incr = Code 0 [Load (\<lambda>_. rx_tail), Store (\<lambda>v s. s\<lparr>rx_tail := v + 1\<rparr>)] Idle"

definition fdserial_recv_fg :: "build \<Rightarrow> fg" where
  "fdserial_recv_fg rb =
    (case rb of
       Some n \<Rightarrow>
         Ring_wait
           (Code 0 [Load (\<lambda>_. rx_tail), Load (\<lambda>v s. rx_buf s ! unat v)]
              (Test (\<lambda>s. uint (rx_tail s) = int n - 1) rx_tail_wrap rx_tail_incr))
     | None \<Rightarrow>
         Spin available
           (Code 0 [Load (\<lambda>_. recv_byte),
                    Store (\<lambda>_ s. s\<lparr>recv_byte := 0\<rparr>),
                    Store (\<lambda>_ s. s\<lparr>available := 0\<rparr>)] Idle))"

definition fdserial_alarm_fg :: "u32 \<Rightarrow> fg \<Rightarrow> fg" where
  "fdserial_alarm_fg duration k = Spin send_ready (Code 0 (fdserial_alarm_code duration) k)"

definition fdserial_delay_fg :: "u32 \<Rightarrow> fg" where
  "fdserial_delay_fg duration = fdserial_alarm_fg duration (Spin send_ready Idle)"

text \<open>\<open>run c v s\<close> makes the accesses \<open>c\<close> one after the other, with no handler in between.\<close>

fun run :: "access list \<Rightarrow> u8 \<Rightarrow> mcu \<Rightarrow> mcu" where
  "run [] v s = s"
| "run (Load f # c) v s = run c (f v s) s"
| "run (Store g # c) v s = run c v (g v s)"

text \<open>
  The program as a whole. It starts from a power-on reset with the foreground idle. The
  foreground calls the API in any order and with any arguments and makes the accesses of
  the call one at a time (\<open>fdserial_available\<close> and \<open>fdserial_sendok\<close> only read and are
  left out). At any point, also between two accesses of a call, the hardware runs a
  handler whose interrupt is unmasked, from its first statement to its last (a handler is
  not interrupted), the counter moves and the pins change level. \<open>running rb fg s\<close>: the
  program gets to the machine state \<open>s\<close> with the foreground at \<open>fg\<close>.
\<close>

inductive running :: "build \<Rightarrow> fg \<Rightarrow> mcu \<Rightarrow> bool" for rb :: build where
  reset: "running rb Idle (power_on rb pins)"
| call_init: "running rb Idle s \<Longrightarrow> running rb (fdserial_init_fg rb) s"
| call_send: "running rb Idle s \<Longrightarrow> running rb (fdserial_send_fg b) s"
| call_recv: "running rb Idle s \<Longrightarrow> running rb (fdserial_recv_fg rb) s"
| call_alarm: "running rb Idle s \<Longrightarrow> running rb (fdserial_alarm_fg d Idle) s"
| call_delay: "running rb Idle s \<Longrightarrow> running rb (fdserial_delay_fg d) s"
| load: "running rb (Code v (Load f # c) k) s \<Longrightarrow> running rb (Code (f v s) c k) s"
| store: "running rb (Code v (Store g # c) k) s \<Longrightarrow> running rb (Code v c k) (g v s)"
| return: "running rb (Code v [] k) s \<Longrightarrow> running rb k s"
| spin: "running rb (Spin f k) s \<Longrightarrow> f s \<noteq> 0 \<Longrightarrow> running rb k s"
| ring_head: "running rb (Ring_wait k) s \<Longrightarrow> running rb (Ring_wait_tail (rx_head s) k) s"
| ring_tail: "running rb (Ring_wait_tail h k) s \<Longrightarrow>
     running rb (if h = rx_tail s then Ring_wait k else k) s"
| test: "running rb (Test p k1 k2) s \<Longrightarrow> running rb (if p s then k1 else k2) s"
| compa: "running rb fg s \<Longrightarrow> tx_tick_enabled s \<Longrightarrow> running rb fg (ISR_TIMER1_COMPA s)"
| compb: "running rb fg s \<Longrightarrow> rx_tick_enabled s \<Longrightarrow> running rb fg (ISR_TIMER1_COMPB rb s)"
| int0: "running rb fg s \<Longrightarrow> int0_enabled s \<Longrightarrow> running rb fg (ISR_INT0 s)"
| hardware: "running rb fg s \<Longrightarrow> running rb fg (s\<lparr>TCNT1 := c, PINB := p\<rparr>)"

text \<open>The machine states the program gets to, wherever the foreground is.\<close>

definition reachable :: "build \<Rightarrow> mcu \<Rightarrow> bool" where
  "reachable rb s = (\<exists>fg. running rb fg s)"

subsection \<open>The ring\<close>

text \<open>
  The bytes waiting in the ring, oldest first: the entries of \<open>rx_buf\<close> from \<open>rx_tail\<close>
  up to, not including, \<open>rx_head\<close>, with the indices wrapping at \<open>n\<close>. \<open>ring_count\<close>
  is their number, \<open>ring_index n t i\<close> the place of the \<open>i\<close>-th of them, and \<open>adv\<close> the
  wrap-around of \<open>advance\<close> on natural numbers.
\<close>

definition ring_count :: "nat \<Rightarrow> nat \<Rightarrow> nat \<Rightarrow> nat" where
  "ring_count n h t = (if t \<le> h then h - t else h + n - t)"

definition ring_index :: "nat \<Rightarrow> nat \<Rightarrow> nat \<Rightarrow> nat" where
  "ring_index n t i = (if t + i < n then t + i else t + i - n)"

definition ring_list :: "nat \<Rightarrow> 'a list \<Rightarrow> nat \<Rightarrow> nat \<Rightarrow> 'a list" where
  "ring_list n buf h t = map (\<lambda>i. buf ! ring_index n t i) [0..<ring_count n h t]"

definition adv :: "nat \<Rightarrow> nat \<Rightarrow> nat" where
  "adv n i = (if i + 1 = n then 0 else i + 1)"

definition ring_contents :: "nat \<Rightarrow> mcu \<Rightarrow> u8 list" where
  "ring_contents n s = ring_list n (rx_buf s) (unat (rx_head s)) (unat (rx_tail s))"

text \<open>A ring whose array has \<open>n\<close> elements and whose indices are both inside it.\<close>

definition ring_ok :: "nat \<Rightarrow> mcu \<Rightarrow> bool" where
  "ring_ok n s =
     (length (rx_buf s) = n \<and> unat (rx_head s) < n \<and> unat (rx_tail s) < n)"

section \<open>Properties\<close>

subsection \<open>The counter\<close>

lemma unat_count_step:
  assumes "unat c \<le> 207"
  shows "unat (count_step 207 c) = (if unat c = 207 then 0 else unat c + 1)"
proof -
  have e: "(c = 207) = (unat c = 207)"
    by (simp add: word_unat_eq_iff)
  have "unat (c + 1) = unat c + 1"
    using assms by (simp add: unat_word_ariths)
  then show ?thesis
    by (simp add: count_step_def e)
qed

lemma first_match_eq:
  "unat c \<le> 207 \<Longrightarrow> unat ocr \<le> 207 \<Longrightarrow>
   first_match fuel 207 ocr c =
     (if counts_to ocr c \<le> fuel then Some (counts_to ocr c) else None)"
proof (induction fuel arbitrary: c)
  case 0
  then show ?case by (auto simp: counts_to_def)
next
  case (Suc fuel)
  let ?c' = "count_step 207 c"
  have u: "unat ?c' = (if unat c = 207 then 0 else unat c + 1)"
    using Suc.prems(1) by (rule unat_count_step)
  have le: "unat ?c' \<le> 207"
    using u Suc.prems(1) by auto
  show ?case
  proof (cases "?c' = ocr")
    case True
    then have "unat ocr = (if unat c = 207 then 0 else unat c + 1)"
      using u by simp
    then have "counts_to ocr c = 1"
      by (auto simp: counts_to_def)
    with True show ?thesis by simp
  next
    case False
    then have ne: "unat ?c' \<noteq> unat ocr"
      by (simp add: word_unat_eq_iff)
    have "counts_to ocr c = Suc (counts_to ocr ?c')"
      using ne u Suc.prems by (auto simp: counts_to_def split: if_splits)
    with False Suc.IH[OF le Suc.prems(2)] show ?thesis
      by (auto simp: Let_def)
  qed
qed

subsection \<open>The edge handler\<close>

lemma OCR1B_ISR_INT0:
  "OCR1B (ISR_INT0 s) = (if 104 \<le> TCNT1 s then TCNT1 s - 104 else TCNT1 s + 104)"
  by (simp add: ISR_INT0_def Let_def start_rx_def disable_int0_def SERIAL_HALFBIT_def
      word_le_nat_alt)

lemma unat_OCR1B_ISR_INT0:
  "unat (OCR1B (ISR_INT0 s)) =
     (if 104 \<le> unat (TCNT1 s) then unat (TCNT1 s) - 104 else (unat (TCNT1 s) + 104) mod 256)"
proof (cases "104 \<le> TCNT1 s")
  case True
  then have "unat (TCNT1 s - 104) = unat (TCNT1 s) - 104"
    by (simp add: unat_sub)
  moreover have "104 \<le> unat (TCNT1 s)"
    using True by (simp add: word_le_nat_alt)
  ultimately show ?thesis
    using True by (simp add: OCR1B_ISR_INT0)
next
  case False
  then have "\<not> 104 \<le> unat (TCNT1 s)"
    by (simp add: word_le_nat_alt)
  then show ?thesis
    using False by (simp add: OCR1B_ISR_INT0 unat_word_ariths)
qed

lemma ISR_INT0_switches:
  "\<not> int0_enabled (ISR_INT0 s)" "rx_tick_enabled (ISR_INT0 s)"
  by (simp_all add: ISR_INT0_def Let_def start_rx_def disable_int0_def int0_enabled_def
      rx_tick_enabled_def bit_simps INT0_def OCIE1B_def)

text \<open>
  C5: for every counter value in \<open>[0, SERIAL_TOP]\<close> that the edge handler reads, it writes
  \<open>tcnt - SERIAL_HALFBIT\<close> to \<open>OCR1B\<close> when \<open>tcnt \<ge> SERIAL_HALFBIT\<close> and
  \<open>tcnt + SERIAL_HALFBIT\<close> otherwise; the value equals
  \<open>(tcnt + SERIAL_HALFBIT) mod (SERIAL_TOP + 1)\<close> and lies in \<open>[0, SERIAL_TOP]\<close>; the
  counter first equals it \<open>SERIAL_HALFBIT\<close> counts after the edge and then again every
  \<open>SERIAL_TOP + 1\<close> counts; the handler masks INT0 and unmasks the B-compare interrupt.
\<close>

theorem ISR_INT0_half_bit:
  "unat (TCNT1 s) \<le> SERIAL_TOP \<Longrightarrow>
     unat (OCR1B (ISR_INT0 s)) =
       (if SERIAL_HALFBIT \<le> unat (TCNT1 s) then unat (TCNT1 s) - SERIAL_HALFBIT
        else unat (TCNT1 s) + SERIAL_HALFBIT) \<and>
     unat (OCR1B (ISR_INT0 s)) = (unat (TCNT1 s) + SERIAL_HALFBIT) mod (SERIAL_TOP + 1) \<and>
     unat (OCR1B (ISR_INT0 s)) \<le> SERIAL_TOP \<and>
     first_match (SERIAL_TOP + 1) (of_nat SERIAL_TOP) (OCR1B (ISR_INT0 s)) (TCNT1 s) =
       Some SERIAL_HALFBIT \<and>
     first_match (SERIAL_TOP + 1) (of_nat SERIAL_TOP) (OCR1B (ISR_INT0 s))
       (OCR1B (ISR_INT0 s)) = Some (SERIAL_TOP + 1) \<and>
     \<not> int0_enabled (ISR_INT0 s) \<and> rx_tick_enabled (ISR_INT0 s)"
proof -
  assume a: "unat (TCNT1 s) \<le> SERIAL_TOP"
  let ?o = "OCR1B (ISR_INT0 s)"
  have c: "unat (TCNT1 s) \<le> 207"
    using a by (simp add: SERIAL_TOP_def)
  have v: "unat ?o = (if 104 \<le> unat (TCNT1 s) then unat (TCNT1 s) - 104
                      else unat (TCNT1 s) + 104)"
    using c by (simp add: unat_OCR1B_ISR_INT0)
  have o: "unat ?o \<le> 207"
    using c v by (simp split: if_splits)
  have m: "unat ?o = (unat (TCNT1 s) + 104) mod 208"
    using c v by (simp add: mod_if)
  have f1: "first_match 208 207 ?o (TCNT1 s) = Some 104"
    using c v by (auto simp: first_match_eq [OF c o] counts_to_def)
  have f2: "first_match 208 207 ?o ?o = Some 208"
    by (simp add: first_match_eq [OF o o] counts_to_def)
  show ?thesis
    using v o m f1 f2 ISR_INT0_switches [of s]
    by (simp add: SERIAL_TOP_def SERIAL_HALFBIT_def)
qed

theorem ISR_INT0_half_bit_witness:
  "unat (TCNT1 (power_on None 0\<lparr>TCNT1 := 150\<rparr>)) \<le> SERIAL_TOP \<and>
   OCR1B (ISR_INT0 (power_on None 0\<lparr>TCNT1 := 150\<rparr>)) = 46 \<and>
   first_match (SERIAL_TOP + 1) (of_nat SERIAL_TOP) 46 150 = Some SERIAL_HALFBIT \<and>
   first_match (SERIAL_TOP + 1) (of_nat SERIAL_TOP) 46 46 = Some (SERIAL_TOP + 1)"
proof -
  have h: "unat (TCNT1 (power_on None 0\<lparr>TCNT1 := 150\<rparr>)) \<le> SERIAL_TOP"
    by (simp add: SERIAL_TOP_def)
  have v: "OCR1B (ISR_INT0 (power_on None 0\<lparr>TCNT1 := 150\<rparr>)) = 46"
    by (simp add: OCR1B_ISR_INT0)
  show ?thesis
    using h v ISR_INT0_half_bit [OF h] by simp
qed

subsection \<open>The receive engine\<close>

lemma read_bit_rx_sample: "(PINB (rx_sample level s) AND S1_RX_PIN \<noteq> 0) = level"
proof -
  have "(PINB s AND NOT S1_RX_PIN) AND S1_RX_PIN = 0"
    by (simp add: and.assoc)
  moreover have "(PINB s OR S1_RX_PIN) AND S1_RX_PIN = S1_RX_PIN"
    by (simp add: and.commute)
  moreover have "S1_RX_PIN \<noteq> 0"
    by (simp add: S1_RX_PIN_def)
  ultimately show ?thesis
    by (simp add: rx_sample_def)
qed

lemma rx_sample_fields:
  "rx_state (rx_sample level s) = rx_state s"
  "recv_bits (rx_sample level s) = recv_bits s"
  "recv_shift (rx_sample level s) = recv_shift s"
  by (simp_all add: rx_sample_def)

lemma data_tick:
  assumes "rx_state s = 2"
  shows "ISR_TIMER1_COMPB rb (rx_sample level s) =
    (rx_sample level s)\<lparr>recv_shift := shift_in level (recv_shift s),
       recv_bits := recv_bits s - 1, rx_state := (if recv_bits s = 1 then 3 else 2)\<rparr>"
  using assms read_bit_rx_sample [of level s]
  by (auto simp: ISR_TIMER1_COMPB_def Let_def shift_in_def rx_sample_fields)

lemma bit_128: "bit (128 :: int) i = (i = 7)"
proof -
  have "bit (2 ^ 7 :: int) i = (i = 7)"
    by (simp only: bit_exp_iff) auto
  then show ?thesis by simp
qed

lemma bit_shift_in:
  "bit (shift_in level x) i = (if i = 7 then level else i < 7 \<and> bit x (Suc i))"
  by (auto simp: shift_in_def bit_simps bit_128 dest: bit_imp_le_length)

lemma bits_shift_in8:
  "map (bit (shift_in h (shift_in g (shift_in f (shift_in e
      (shift_in d (shift_in c (shift_in b (shift_in a x)))))))))
   [0..<8] = [a, b, c, d, e, f, g, h]"
  by (simp add: upt_rec bit_shift_in)

lemma list8: "length ss = 8 \<Longrightarrow> \<exists>a b c d e f g h. ss = [a, b, c, d, e, f, g, h]"
  by (auto simp: length_Suc_conv eval_nat_numeral)

text \<open>
  C4: eight B-compare ticks in the data-bit state (\<open>rx_state = 2\<close>), started with
  \<open>recv_bits = 8\<close> and sampling the levels \<open>ss\<close> in this order, leave in \<open>recv_shift\<close>
  the byte whose bit \<open>i\<close> is the \<open>i\<close>-th sample, whatever \<open>recv_shift\<close> held before, and
  move the engine to the state that waits for the line to go high (\<open>rx_state = 3\<close>).
\<close>

theorem data_bits_lsb_first:
  assumes "rx_state s = 2" and "recv_bits s = 8" and "length ss = 8"
  shows "map (bit (recv_shift (rx_ticks rb ss s))) [0..<8] = ss \<and>
         rx_state (rx_ticks rb ss s) = 3"
proof -
  obtain a b c d e f g h where ss: "ss = [a, b, c, d, e, f, g, h]"
    using list8 [OF assms(3)] by blast
  show ?thesis
    using assms(1,2) by (simp add: ss data_tick rx_sample_fields bits_shift_in8)
qed

theorem data_bits_lsb_first_witness:
  "rx_state (power_on None 0\<lparr>rx_state := 2, recv_bits := 8, recv_shift := 0x3C\<rparr>) = 2 \<and>
   recv_bits (power_on None 0\<lparr>rx_state := 2, recv_bits := 8, recv_shift := 0x3C\<rparr>) = 8 \<and>
   length [True, False, True, False, False, True, False, True] = 8 \<and>
   map (bit (recv_shift (rx_ticks None [True, False, True, False, False, True, False, True]
          (power_on None 0\<lparr>rx_state := 2, recv_bits := 8, recv_shift := 0x3C\<rparr>)))) [0..<8] =
     [True, False, True, False, False, True, False, True] \<and>
   map (bit (0xA5 :: u8)) [0..<8] = [True, False, True, False, False, True, False, True]"
  using data_bits_lsb_first
    [of "power_on None 0\<lparr>rx_state := 2, recv_bits := 8, recv_shift := 0x3C\<rparr>"
        "[True, False, True, False, False, True, False, True]" None]
  by (simp add: upt_rec)

subsection \<open>The transmit engine\<close>

lemma tx_level_drive_tx: "tx_level (drive_tx level s) = level"
proof -
  have "(PORTB s AND NOT S1_TX_PIN) AND S1_TX_PIN = 0"
    by (simp add: and.assoc)
  moreover have "(PORTB s OR S1_TX_PIN) AND S1_TX_PIN = S1_TX_PIN"
    by (simp add: and.commute)
  moreover have "S1_TX_PIN \<noteq> 0"
    by (simp add: S1_TX_PIN_def)
  ultimately show ?thesis
    by (simp add: drive_tx_def tx_level_def)
qed

lemma drive_tx_fields:
  "tx_state (drive_tx l s) = tx_state s"
  "send_ready (drive_tx l s) = send_ready s"
  "send_byte (drive_tx l s) = send_byte s"
  "send_bits (drive_tx l s) = send_bits s"
  "OCR1A (drive_tx l s) = OCR1A s"
  "TIMSK (drive_tx l s) = TIMSK s"
  "tx_level (s\<lparr>tx_state := a\<rparr>) = tx_level s"
  "tx_level (s\<lparr>send_bits := b\<rparr>) = tx_level s"
  "tx_level (s\<lparr>send_byte := b\<rparr>) = tx_level s"
  by (simp_all add: drive_tx_def tx_level_def)

lemma tx_start_tick:
  "tx_state s = 1 \<Longrightarrow>
   ISR_TIMER1_COMPA s = (drive_tx False s)\<lparr>tx_state := 2, send_bits := 8\<rparr>"
  by (simp add: ISR_TIMER1_COMPA_def Let_def drive_tx_def)

lemma tx_data_tick:
  "tx_state s = 2 \<Longrightarrow>
   ISR_TIMER1_COMPA s =
     (drive_tx (bit (send_byte s) 0) s)\<lparr>send_byte := drop_bit 1 (send_byte s),
        send_bits := send_bits s - 1, tx_state := (if send_bits s = 1 then 3 else 2)\<rparr>"
  by (auto simp: ISR_TIMER1_COMPA_def Let_def drive_tx_def
      bit_iff_and_push_bit_not_eq_0 [of _ 0, simplified])

lemma tx_stop_tick:
  "tx_state s = 3 \<Longrightarrow> ISR_TIMER1_COMPA s = (drive_tx True s)\<lparr>tx_state := 4\<rparr>"
  by (simp add: ISR_TIMER1_COMPA_def Let_def drive_tx_def)

lemma tx_return_tick:
  "tx_state s = 4 \<Longrightarrow>
   ISR_TIMER1_COMPA s = stop_tx (s\<lparr>send_ready := 1, tx_state := 0\<rparr>)"
  by (simp add: ISR_TIMER1_COMPA_def Let_def)

lemma fdserial_send_ready:
  "send_ready s \<noteq> 0 \<Longrightarrow>
   fdserial_send b s =
     Some (start_tx (s\<lparr>OCR1A := TCNT1 s, send_ready := 0, send_byte := b, tx_state := 1\<rparr>))"
  by (simp add: fdserial_send_def Let_def)

lemma start_tx_fields:
  "tx_state (start_tx s) = tx_state s"
  "send_ready (start_tx s) = send_ready s"
  "send_byte (start_tx s) = send_byte s"
  "send_bits (start_tx s) = send_bits s"
  "OCR1A (start_tx s) = OCR1A s"
  "tx_tick_enabled (start_tx s)"
  by (simp_all add: start_tx_def tx_tick_enabled_def OCIE1A_def bit_simps)

lemma tx_ticks_add: "tx_ticks (m + n) s = tx_ticks n (tx_ticks m s)"
  by (induction m arbitrary: s) simp_all

lemma tx_levels_add: "tx_levels (m + n) s = tx_levels m s @ tx_levels n (tx_ticks m s)"
  by (induction m arbitrary: s) simp_all

lemma of_nat_Suc_eq_1_u8: "k \<le> 8 \<Longrightarrow> ((of_nat (Suc k) :: u8) = 1) = (k = 0)"
  by (auto simp: word_unat_eq_iff unat_word_ariths unat_of_nat)

lemma tx_data_run:
  "tx_state s = 2 \<Longrightarrow> send_bits s = of_nat k \<Longrightarrow> 0 < k \<Longrightarrow> k \<le> 8 \<Longrightarrow>
     tx_levels k s = map (bit (send_byte s)) [0..<k] \<and>
     tx_state (tx_ticks k s) = 3 \<and> send_ready (tx_ticks k s) = send_ready s \<and>
     OCR1A (tx_ticks k s) = OCR1A s \<and> TIMSK (tx_ticks k s) = TIMSK s"
proof (induction k arbitrary: s)
  case 0
  then show ?case by simp
next
  case (Suc k)
  let ?s1 = "ISR_TIMER1_COMPA s"
  have s1: "?s1 = (drive_tx (bit (send_byte s) 0) s)\<lparr>send_byte := drop_bit 1 (send_byte s),
        send_bits := send_bits s - 1, tx_state := (if send_bits s = 1 then 3 else 2)\<rparr>"
    using Suc.prems(1) by (rule tx_data_tick)
  have l: "tx_level ?s1 = bit (send_byte s) 0"
    by (simp add: s1 drive_tx_fields tx_level_drive_tx)
  have one: "(send_bits s = 1) = (k = 0)"
    using Suc.prems by (simp add: of_nat_Suc_eq_1_u8 del: of_nat_Suc)
  show ?case
  proof (cases "k = 0")
    case True
    then show ?thesis
      using l one by (simp add: s1 drive_tx_fields)
  next
    case False
    have a: "tx_state ?s1 = 2"
      using False one by (simp add: s1)
    have b: "send_bits ?s1 = of_nat k"
      using Suc.prems(2) by (simp add: s1)
    have ih: "tx_levels k ?s1 = map (bit (send_byte ?s1)) [0..<k] \<and>
        tx_state (tx_ticks k ?s1) = 3 \<and> send_ready (tx_ticks k ?s1) = send_ready ?s1 \<and>
        OCR1A (tx_ticks k ?s1) = OCR1A ?s1 \<and> TIMSK (tx_ticks k ?s1) = TIMSK ?s1"
      using Suc.IH [OF a b] False Suc.prems(4) by simp
    have sb: "send_byte ?s1 = drop_bit 1 (send_byte s)"
      by (simp add: s1)
    have u: "[0..<Suc k] = 0 # map Suc [0..<k]"
      by (simp add: upt_conv_Cons map_Suc_upt del: upt_Suc)
    have r: "send_ready ?s1 = send_ready s" "OCR1A ?s1 = OCR1A s" "TIMSK ?s1 = TIMSK s"
      by (simp_all add: s1 drive_tx_fields)
    show ?thesis
      using ih l by (simp add: sb u r bit_drop_bit_eq del: upt_Suc)
  qed
qed

text \<open>
  C3: for every byte \<open>b\<close>, once \<open>fdserial_send b\<close> has started the transmission, the
  levels that the next ten A-compare ticks drive on the TX line are: low (start bit),
  the eight bits of \<open>b\<close> with the least significant first, high (stop bit). The compare
  value stays where \<open>fdserial_send\<close> put it, so the ticks are one counter period
  (\<open>SERIAL_TOP + 1\<close> counts) apart. The eleventh tick sets \<open>send_ready\<close>, returns
  \<open>tx_state\<close> to idle and masks the A-compare interrupt.
\<close>

theorem send_frame:
  assumes "send_ready s \<noteq> 0" and "unat (TCNT1 s) \<le> SERIAL_TOP"
  shows "case fdserial_send b s of
           None \<Rightarrow> False
         | Some s1 \<Rightarrow>
             tx_tick_enabled s1 \<and>
             tx_levels 10 s1 = [False] @ map (bit b) [0..<8] @ [True] \<and>
             send_ready (tx_ticks 10 s1) = 0 \<and> tx_state (tx_ticks 10 s1) = 4 \<and>
             tx_tick_enabled (tx_ticks 10 s1) \<and>
             OCR1A (tx_ticks 10 s1) = OCR1A s1 \<and>
             first_match (SERIAL_TOP + 1) (of_nat SERIAL_TOP) (OCR1A s1) (OCR1A s1) =
               Some (SERIAL_TOP + 1) \<and>
             send_ready (tx_ticks 11 s1) = 1 \<and> tx_state (tx_ticks 11 s1) = 0 \<and>
             \<not> tx_tick_enabled (tx_ticks 11 s1)"
proof -
  define s1 where
    "s1 = start_tx (s\<lparr>OCR1A := TCNT1 s, send_ready := 0, send_byte := b, tx_state := 1\<rparr>)"
  define s2 where "s2 = ISR_TIMER1_COMPA s1"
  define s3 where "s3 = tx_ticks 8 s2"
  define s4 where "s4 = ISR_TIMER1_COMPA s3"
  define s5 where "s5 = ISR_TIMER1_COMPA s4"
  have send: "fdserial_send b s = Some s1"
    using assms(1) by (simp add: fdserial_send_ready s1_def)
  have p1: "tx_state s1 = 1" "send_ready s1 = 0" "send_byte s1 = b" "OCR1A s1 = TCNT1 s"
      "tx_tick_enabled s1"
    by (simp_all add: s1_def start_tx_fields)
  have e2: "s2 = (drive_tx False s1)\<lparr>tx_state := 2, send_bits := 8\<rparr>"
    unfolding s2_def using p1(1) by (rule tx_start_tick)
  have p2: "tx_state s2 = 2" "send_bits s2 = of_nat 8" "send_byte s2 = b" "send_ready s2 = 0"
      "OCR1A s2 = TCNT1 s" "TIMSK s2 = TIMSK s1" "tx_level s2 = False"
    using p1 by (simp_all add: e2 drive_tx_fields tx_level_drive_tx)
  have run: "tx_levels 8 s2 = map (bit (send_byte s2)) [0..<8] \<and>
      tx_state (tx_ticks 8 s2) = 3 \<and> send_ready (tx_ticks 8 s2) = send_ready s2 \<and>
      OCR1A (tx_ticks 8 s2) = OCR1A s2 \<and> TIMSK (tx_ticks 8 s2) = TIMSK s2"
    by (rule tx_data_run [OF p2(1) p2(2)]) simp_all
  have p3: "tx_state s3 = 3" "send_ready s3 = 0" "OCR1A s3 = TCNT1 s" "TIMSK s3 = TIMSK s1"
    using run p2 by (simp_all add: s3_def)
  have e4: "s4 = (drive_tx True s3)\<lparr>tx_state := 4\<rparr>"
    unfolding s4_def using p3(1) by (rule tx_stop_tick)
  have p4: "tx_state s4 = 4" "send_ready s4 = 0" "OCR1A s4 = TCNT1 s" "TIMSK s4 = TIMSK s1"
      "tx_level s4 = True"
    using p3 by (simp_all add: e4 drive_tx_fields tx_level_drive_tx)
  have e5: "s5 = stop_tx (s4\<lparr>send_ready := 1, tx_state := 0\<rparr>)"
    unfolding s5_def using p4(1) by (rule tx_return_tick)
  have p5: "tx_state s5 = 0" "send_ready s5 = 1" "\<not> tx_tick_enabled s5"
    by (simp_all add: e5 stop_tx_def tx_tick_enabled_def OCIE1A_def bit_simps)
  have t10: "tx_ticks 10 s1 = s4"
    using tx_ticks_add [of 1 9 s1] tx_ticks_add [of 8 1 s2]
    by (simp add: s2_def s3_def s4_def)
  have t11: "tx_ticks 11 s1 = s5"
    using tx_ticks_add [of 10 1 s1] by (simp add: t10 s5_def)
  have l10: "tx_levels 10 s1 = [False] @ map (bit b) [0..<8] @ [True]"
    using tx_levels_add [of 1 9 s1] tx_levels_add [of 8 1 s2] run p2 p4
    by (simp add: s2_def [symmetric] s3_def [symmetric] s4_def [symmetric] del: upt_Suc)
  have en: "tx_tick_enabled s4"
    using p1(5) p4(4) by (simp add: tx_tick_enabled_def)
  have c: "unat (OCR1A s1) \<le> 207"
    using assms(2) p1(4) by (simp add: SERIAL_TOP_def)
  have per: "first_match 208 207 (OCR1A s1) (OCR1A s1) = Some 208"
    by (simp add: first_match_eq [OF c c] counts_to_def)
  show ?thesis
    using p1 p4 p5 en per
    by (simp add: send t10 t11 l10 SERIAL_TOP_def del: upt_Suc)
qed

theorem send_frame_witness:
  "send_ready (fdserial_init None (power_on None 0)) \<noteq> 0 \<and>
   unat (TCNT1 (fdserial_init None (power_on None 0))) \<le> SERIAL_TOP \<and>
   (case fdserial_send 0x55 (fdserial_init None (power_on None 0)) of
      None \<Rightarrow> False
    | Some s1 \<Rightarrow>
        tx_levels 10 s1 =
          [False, True, False, True, False, True, False, True, False, True] \<and>
        send_ready (tx_ticks 11 s1) = 1 \<and> tx_state (tx_ticks 11 s1) = 0)"
proof -
  have h1: "send_ready (fdserial_init None (power_on None 0)) \<noteq> 0"
    by (simp add: fdserial_init_def Let_def enable_int0_def starttimer_def stoptimer_def)
  have h2: "unat (TCNT1 (fdserial_init None (power_on None 0))) \<le> SERIAL_TOP"
    by (simp add: fdserial_init_def Let_def enable_int0_def starttimer_def stoptimer_def)
  have bits: "map (bit (0x55 :: u8)) [0..<8] =
      [True, False, True, False, True, False, True, False]"
    by (simp add: upt_rec)
  show ?thesis
    using h1 h2 send_frame [OF h1 h2, of "0x55"]
    by (auto simp: bits split: option.splits)
qed

subsection \<open>A whole character on the receive line\<close>

lemma start_mid_tick:
  "rx_state s = 0 \<Longrightarrow>
   ISR_TIMER1_COMPB rb (rx_sample level s) =
     (rx_sample level s)\<lparr>rx_state := 2, recv_bits := 8\<rparr>"
  by (simp add: ISR_TIMER1_COMPB_def Let_def rx_sample_fields)

lemma await_high_tick:
  "rx_state s = 3 \<Longrightarrow>
   ISR_TIMER1_COMPB rb (rx_sample True s) =
     enable_int0 (stop_rx ((publish rb (rx_sample True s))\<lparr>rx_state := 0\<rparr>))"
  using read_bit_rx_sample [of True s]
  by (simp add: ISR_TIMER1_COMPB_def Let_def rx_sample_fields)

lemma map_upt8: "map f [0..<8] = [f 0, f 1, f 2, f 3, f 4, f 5, f 6, f 7]"
  by (simp add: upt_rec numeral_eq_Suc)

lemma shift_in_byte:
  "shift_in (bit b 7) (shift_in (bit b 6) (shift_in (bit b 5) (shift_in (bit b 4)
     (shift_in (bit b 3) (shift_in (bit b 2) (shift_in (bit b (Suc 0))
       (shift_in (bit b 0) x))))))) = b"
proof (rule bit_word_eqI)
  fix i
  assume "i < LENGTH(8)"
  then have "i \<in> {0, 1, 2, 3, 4, 5, 6, 7}"
    by auto
  then show "bit (shift_in (bit b 7) (shift_in (bit b 6) (shift_in (bit b 5)
      (shift_in (bit b 4) (shift_in (bit b 3) (shift_in (bit b 2)
        (shift_in (bit b (Suc 0)) (shift_in (bit b 0) x)))))))) i = bit b i"
    by (auto simp: bit_shift_in eval_nat_numeral)
qed

lemma ISR_INT0_fields:
  "rx_state (ISR_INT0 s) = rx_state s"
  "rx_buf (ISR_INT0 s) = rx_buf s"
  "rx_head (ISR_INT0 s) = rx_head s"
  "rx_tail (ISR_INT0 s) = rx_tail s"
  "recv_byte (ISR_INT0 s) = recv_byte s"
  "available (ISR_INT0 s) = available s"
  by (simp_all add: ISR_INT0_def Let_def start_rx_def disable_int0_def)

lemma rx_sample_buffer:
  "rx_buf (rx_sample level s) = rx_buf s"
  "rx_head (rx_sample level s) = rx_head s"
  "rx_tail (rx_sample level s) = rx_tail s"
  "recv_byte (rx_sample level s) = recv_byte s"
  "available (rx_sample level s) = available s"
  "OCR1B (rx_sample level s) = OCR1B s"
  by (simp_all add: rx_sample_def)

text \<open>
  A character \<open>b\<close> that arrives while the engine is idle ends in \<open>publish\<close>, applied to
  a state \<open>t\<close> whose shift register holds \<open>b\<close> and whose buffers are those from before.
\<close>

lemma rx_frame_publish:
  assumes "rx_state s = 0"
  shows "\<exists>t. rx_frame rb b s = enable_int0 (stop_rx ((publish rb t)\<lparr>rx_state := 0\<rparr>)) \<and>
     recv_shift t = b \<and> rx_buf t = rx_buf s \<and> rx_head t = rx_head s \<and>
     rx_tail t = rx_tail s \<and> recv_byte t = recv_byte s \<and> available t = available s \<and>
     OCR1B t = OCR1B (ISR_INT0 s)"
  using assms
  apply (simp add: rx_frame_def map_upt8 ISR_INT0_fields start_mid_tick data_tick
      rx_sample_fields await_high_tick)
  apply (rule exI, rule conjI, rule refl)
  apply (simp add: rx_sample_fields rx_sample_buffer ISR_INT0_fields shift_in_byte)
  done

lemma advance_neq: "2 \<le> n \<Longrightarrow> advance n i \<noteq> i"
  by (auto simp: advance_def)

lemma fdserial_recv_switches:
  "fdserial_recv rb (enable_int0 (stop_rx (s\<lparr>rx_state := a\<rparr>))) =
     map_option (\<lambda>(c, t). (c, enable_int0 (stop_rx (t\<lparr>rx_state := a\<rparr>))))
       (fdserial_recv rb s)"
  by (auto simp: fdserial_recv_def enable_int0_def stop_rx_def Let_def split: option.splits)

lemma recv_publish:
  assumes "ready_to_receive rb t"
  shows "map_option fst (fdserial_recv rb (publish rb t)) = Some (recv_shift t)"
proof (cases rb)
  case None
  then show ?thesis
    by (simp add: fdserial_recv_def publish_def Let_def)
next
  case (Some n)
  then have n: "2 \<le> n" "length (rx_buf t) = n" "rx_head t = rx_tail t" "unat (rx_head t) < n"
    using assms by (auto simp: ready_to_receive_def)
  have "advance n (rx_tail t) \<noteq> rx_tail t"
    using n(1) by (rule advance_neq)
  then show ?thesis
    using n by (simp add: Some fdserial_recv_def publish_def Let_def)
qed

text \<open>
  C7, as the code has it: with \<open>SERIAL_TOP = 207\<close> and \<open>SERIAL_HALFBIT = 104\<close>, a
  falling edge at counter value 50 sets the B-compare to 154, which the counter reaches
  104 counts later and then every 208 counts; the eight data-bit samples L H L H L H L H
  make \<open>fdserial_recv\<close> return \<open>0xAA\<close> (bit \<open>i\<close> of the byte is the \<open>i\<close>-th sample).
\<close>

theorem recv_LHLHLHLH:
  assumes "rx_state s = 0" and "TCNT1 s = 50" and "ready_to_receive rb s"
  shows "OCR1B (ISR_INT0 s) = 154 \<and>
         first_match (SERIAL_TOP + 1) (of_nat SERIAL_TOP) 154 50 = Some SERIAL_HALFBIT \<and>
         first_match (SERIAL_TOP + 1) (of_nat SERIAL_TOP) 154 154 = Some (SERIAL_TOP + 1) \<and>
         OCR1B (rx_ticks rb
           ([False] @ [False, True, False, True, False, True, False, True] @ [True])
           (ISR_INT0 s)) = 154 \<and>
         map_option fst (fdserial_recv rb (rx_ticks rb
           ([False] @ [False, True, False, True, False, True, False, True] @ [True])
           (ISR_INT0 s))) = Some 0xAA"
proof -
  have bits: "[False, True, False, True, False, True, False, True] =
      map (bit (0xAA :: u8)) [0..<8]"
    by (simp add: upt_rec)
  obtain t where t:
      "rx_frame rb 0xAA s = enable_int0 (stop_rx ((publish rb t)\<lparr>rx_state := 0\<rparr>))"
      "recv_shift t = 0xAA" "rx_buf t = rx_buf s" "rx_head t = rx_head s"
      "rx_tail t = rx_tail s" "OCR1B t = OCR1B (ISR_INT0 s)"
    using rx_frame_publish [OF assms(1), of rb "0xAA"] by blast
  have o: "OCR1B (ISR_INT0 s) = 154"
    using assms(2) by (simp add: OCR1B_ISR_INT0)
  have r: "ready_to_receive rb t"
    using assms(3) t by (auto simp: ready_to_receive_def split: option.splits)
  have f1: "first_match 208 207 154 50 = Some 104"
    by (simp add: first_match_eq counts_to_def)
  have f2: "first_match 208 207 154 154 = Some 208"
    by (simp add: first_match_eq counts_to_def)
  have o2: "OCR1B (rx_frame rb 0xAA s) = 154"
    using o t(6)
    by (simp add: t(1) enable_int0_def stop_rx_def publish_def Let_def split: option.splits)
  have "map_option fst (fdserial_recv rb (rx_frame rb 0xAA s)) = Some 0xAA"
    using recv_publish [OF r] t(2)
    by (simp add: t(1) fdserial_recv_switches option.map_comp comp_def case_prod_unfold)
  then show ?thesis
    using o o2 f1 f2 unfolding rx_frame_def bits [symmetric]
    by (simp add: SERIAL_TOP_def SERIAL_HALFBIT_def)
qed

theorem recv_LHLHLHLH_witness:
  "rx_state (fdserial_init (Some 4) (power_on (Some 4) 0xFF)\<lparr>TCNT1 := 50\<rparr>) = 0 \<and>
   TCNT1 (fdserial_init (Some 4) (power_on (Some 4) 0xFF)\<lparr>TCNT1 := 50\<rparr>) = 50 \<and>
   ready_to_receive (Some 4) (fdserial_init (Some 4) (power_on (Some 4) 0xFF)\<lparr>TCNT1 := 50\<rparr>) \<and>
   map_option fst (fdserial_recv (Some 4) (rx_ticks (Some 4)
     ([False] @ [False, True, False, True, False, True, False, True] @ [True])
     (ISR_INT0 (fdserial_init (Some 4) (power_on (Some 4) 0xFF)\<lparr>TCNT1 := 50\<rparr>)))) = Some 0xAA"
proof -
  let ?s = "fdserial_init (Some 4) (power_on (Some 4) 0xFF)\<lparr>TCNT1 := 50\<rparr>"
  have h1: "rx_state ?s = 0"
    by code_simp
  have h2: "TCNT1 ?s = 50"
    by simp
  have h3: "ready_to_receive (Some 4) ?s"
    by code_simp
  show ?thesis
    using h1 h2 h3 recv_LHLHLHLH [OF h1 h2 h3] by simp
qed

text \<open>The scenario of C7 as the specification states it: the byte returned is not \<open>0xA5\<close>.\<close>

theorem recv_0xA5_counterexample:
  "map_option fst (fdserial_recv None (rx_ticks None
     ([False] @ [False, True, False, True, False, True, False, True] @ [True])
     (ISR_INT0 (fdserial_init None (power_on None 0xFF)\<lparr>TCNT1 := 50\<rparr>)))) \<noteq> Some 0xA5"
  by code_simp

subsection \<open>Initialisation\<close>

lemma and_or_same: "(x OR m) AND m = (m :: u8)"
  by (simp add: and.commute)

lemma and_not_same: "(x AND NOT m) AND m = (0 :: u8)"
  by (simp add: and.assoc)

lemma pins_disjoint:
  "S1_TX_PIN AND S1_RX_PIN = 0" "NOT S1_RX_PIN AND S1_TX_PIN = S1_TX_PIN"
  by (simp_all add: S1_TX_PIN_def S1_RX_PIN_def)

text \<open>
  C8, as the code has it: for every prior state, \<open>fdserial_init\<close> sets \<open>send_ready\<close> and
  clears \<open>tx_state\<close>, \<open>available\<close>, \<open>rx_state\<close> and, in ring mode, both ring indices;
  it leaves the other fields of the instance as they were. It does not write \<open>TIMSK\<close>:
  the two tick interrupts stay as they were, and are disabled when \<open>fdserial_init\<close> runs
  after a power-on reset. It enables the edge detector on the falling edge, sets the timer
  top to \<open>SERIAL_TOP\<close>, installs CTC mode with the prescaler selected (the timer runs),
  makes the TX pin an output driven high and the RX pin an input with pull-up.
\<close>

theorem fdserial_init_effect:
  "send_ready (fdserial_init rb s) = 1 \<and>
   tx_state (fdserial_init rb s) = 0 \<and>
   available (fdserial_init rb s) = 0 \<and>
   rx_state (fdserial_init rb s) = 0 \<and>
   (case rb of
      None \<Rightarrow>
        rx_head (fdserial_init rb s) = rx_head s \<and> rx_tail (fdserial_init rb s) = rx_tail s
    | Some n \<Rightarrow> rx_head (fdserial_init rb s) = 0 \<and> rx_tail (fdserial_init rb s) = 0) \<and>
   send_byte (fdserial_init rb s) = send_byte s \<and>
   send_bits (fdserial_init rb s) = send_bits s \<and>
   delay (fdserial_init rb s) = delay s \<and>
   recv_byte (fdserial_init rb s) = recv_byte s \<and>
   recv_shift (fdserial_init rb s) = recv_shift s \<and>
   recv_bits (fdserial_init rb s) = recv_bits s \<and>
   rx_buf (fdserial_init rb s) = rx_buf s \<and>
   TIMSK (fdserial_init rb s) = TIMSK s \<and>
   tx_tick_enabled (fdserial_init rb s) = tx_tick_enabled s \<and>
   rx_tick_enabled (fdserial_init rb s) = rx_tick_enabled s \<and>
   \<not> tx_tick_enabled (fdserial_init rb (power_on rb pins)) \<and>
   \<not> rx_tick_enabled (fdserial_init rb (power_on rb pins)) \<and>
   int0_enabled (fdserial_init rb s) \<and>
   bit (MCUCR (fdserial_init rb s)) ISC01 \<and>
   TCNT1 (fdserial_init rb s) = 0 \<and>
   OCR1A (fdserial_init rb s) = 16 \<and>
   OCR1B (fdserial_init rb s) = 32 \<and>
   unat (OCR1C (fdserial_init rb s)) = SERIAL_TOP \<and>
   TCCR1 (fdserial_init rb s) = push_bit CTC1 1 OR PRESCALER \<and>
   bit (TCCR1 (fdserial_init rb s)) CTC1 \<and>
   TCCR1 (fdserial_init rb s) AND PRESCALER = PRESCALER \<and>
   DDRB (fdserial_init rb s) AND S1_TX_PIN = S1_TX_PIN \<and>
   PORTB (fdserial_init rb s) AND S1_TX_PIN = S1_TX_PIN \<and>
   DDRB (fdserial_init rb s) AND S1_RX_PIN = 0 \<and>
   PORTB (fdserial_init rb s) AND S1_RX_PIN = S1_RX_PIN"
proof -
  have "(PORTB s OR S1_TX_PIN) OR S1_RX_PIN = (PORTB s OR S1_RX_PIN) OR S1_TX_PIN"
    by (simp add: ac_simps)
  then have tx: "((PORTB s OR S1_TX_PIN) OR S1_RX_PIN) AND S1_TX_PIN = S1_TX_PIN"
    by (simp only: and_or_same)
  have dd: "((DDRB s OR S1_TX_PIN) AND NOT S1_RX_PIN) AND S1_TX_PIN = S1_TX_PIN"
    by (simp add: and.assoc pins_disjoint and_or_same)
  have tc: "(push_bit CTC1 1 OR PRESCALER :: u8) = 0x83" "bit (0x83 :: u8) CTC1"
      "(0x83 :: u8) AND PRESCALER = PRESCALER"
    by (simp_all add: CTC1_def PRESCALER_def CS10_def CS11_def)
  show ?thesis
    using tx dd tc
    by (cases rb)
      (simp_all add: fdserial_init_def Let_def enable_int0_def starttimer_def stoptimer_def
        tx_tick_enabled_def rx_tick_enabled_def int0_enabled_def power_on_def
        and_or_same and_not_same bit_simps INT0_def ISC01_def SERIAL_TOP_def COM1A0_def
        COM1A1_def OCIE1A_def OCIE1B_def)
qed

text \<open>
  C8 as the specification states it fails for a prior state in which a transmission is
  under way: after \<open>fdserial_init\<close> the transmit tick is still enabled and \<open>send_byte\<close>
  still holds the byte.
\<close>

theorem fdserial_init_counterexample:
  "tx_tick_enabled (fdserial_init None
     (the (fdserial_send 0x41 (fdserial_init None (power_on None 0xFF))))) \<and>
   send_byte (fdserial_init None
     (the (fdserial_send 0x41 (fdserial_init None (power_on None 0xFF))))) = 0x41"
  by code_simp

subsection \<open>The alarm\<close>

lemma unat_timer_ticks:
  "unat ((duration * of_nat CPU_FREQ) div of_nat PRESCALER_DIVISOR div 1000 :: u32) =
     alarm_ticks duration"
  by (simp add: alarm_ticks_def CPU_FREQ_def PRESCALER_DIVISOR_def unat_div unat_word_ariths)

lemma remainder_eq:
  "(ucast ((t :: u32) - t div of_nat (SERIAL_TOP + 1) * of_nat (SERIAL_TOP + 1)) :: u8) =
     of_nat (unat t mod (SERIAL_TOP + 1))"
proof -
  have "t - t div 208 * 208 = t mod 208"
    by (simp add: minus_div_mult_eq_mod)
  also have "\<dots> = of_nat (unat t mod 208)"
    by (simp add: word_arith_nat_mod)
  finally have "t - t div 208 * 208 = of_nat (unat t mod 208)" .
  moreover have "take_bit 32 (unat t mod 208) = unat t mod 208"
    by (rule take_bit_nat_eq_self) (simp add: less_trans [OF mod_less_divisor])
  ultimately show ?thesis
    by (simp add: SERIAL_TOP_def unsigned_of_nat)
qed

lemma fdserial_alarm_eq:
  "fdserial_alarm d s =
     (if send_ready s = 0 then None
      else Some (s\<lparr>OCR1A := TCNT1 s - of_nat (alarm_ticks d mod (SERIAL_TOP + 1)),
                   delay := of_nat (alarm_ticks d div (SERIAL_TOP + 1)),
                   send_ready := 0, tx_state := 5\<rparr>))"
proof -
  define t :: u32 where "t = (d * of_nat CPU_FREQ) div of_nat PRESCALER_DIVISOR div 1000"
  have ut: "unat t = alarm_ticks d"
    unfolding t_def by (rule unat_timer_ticks)
  have r: "(ucast (t - t div of_nat (SERIAL_TOP + 1) * of_nat (SERIAL_TOP + 1)) :: u8) =
      of_nat (alarm_ticks d mod (SERIAL_TOP + 1))"
    by (simp only: remainder_eq ut)
  have c: "t div of_nat (SERIAL_TOP + 1) = of_nat (alarm_ticks d div (SERIAL_TOP + 1))"
    by (simp only: word_arith_nat_div [of t] ut) (simp add: SERIAL_TOP_def)
  have w: "\<And>a b :: u8. word_of_int (uint a - uint b) = a - b"
    by simp
  show ?thesis
    apply (simp only: fdserial_alarm_def Let_def)
    apply (simp only: t_def [symmetric])
    apply (simp only: r)
    apply (simp only: c w)
    done
qed

lemma alarm_ticks_small:
  "unat d * CPU_FREQ < 2 ^ 32 \<Longrightarrow>
   alarm_ticks d = unat d * CPU_FREQ div PRESCALER_DIVISOR div 1000"
  by (simp add: alarm_ticks_def)

lemma alarm_ticks_le: "alarm_ticks d \<le> 1073741"
  by (simp add: alarm_ticks_def CPU_FREQ_def PRESCALER_DIVISOR_def div_mult2_eq [symmetric])

lemma fdserial_init_simple:
  "send_ready (fdserial_init rb s) = 1" "TCNT1 (fdserial_init rb s) = 0"
  by (simp_all add: fdserial_init_def Let_def enable_int0_def starttimer_def stoptimer_def
      split: option.splits)

text \<open>
  C6, as the code has it: \<open>fdserial_alarm\<close> blocks while \<open>send_ready\<close> is clear. Otherwise,
  for a duration \<open>ms\<close> whose product \<open>ms * F\<close> fits the 32 bits it is computed in, with
  \<open>T = ms * F div P div 1000\<close> the tick count, it sets the countdown \<open>delay\<close> to
  \<open>T div (TOP + 1)\<close>, rounded down; whenever the remainder \<open>T mod (TOP + 1)\<close> does not
  exceed the counter value it back-dates \<open>OCR1A\<close> by exactly the remainder, which keeps
  \<open>OCR1A\<close> in \<open>[0, TOP]\<close> when the counter is; it clears \<open>send_ready\<close> and enters the
  delay state.
\<close>

theorem fdserial_alarm_effect:
  "(fdserial_alarm d s = None) = (send_ready s = 0) \<and>
   (send_ready s \<noteq> 0 \<and> unat d * CPU_FREQ < 2 ^ 32 \<longrightarrow>
      (case fdserial_alarm d s of
         None \<Rightarrow> False
       | Some s' \<Rightarrow>
           unat (delay s') =
             unat d * CPU_FREQ div PRESCALER_DIVISOR div 1000 div (SERIAL_TOP + 1) \<and>
           (unat d * CPU_FREQ div PRESCALER_DIVISOR div 1000 mod (SERIAL_TOP + 1)
              \<le> unat (TCNT1 s) \<longrightarrow>
              unat (OCR1A s') =
                unat (TCNT1 s) -
                  unat d * CPU_FREQ div PRESCALER_DIVISOR div 1000 mod (SERIAL_TOP + 1) \<and>
              (unat (TCNT1 s) \<le> SERIAL_TOP \<longrightarrow> unat (OCR1A s') \<le> SERIAL_TOP)) \<and>
           send_ready s' = 0 \<and> tx_state s' = 5))"
proof -
  let ?r = "alarm_ticks d mod (SERIAL_TOP + 1)"
  have rb: "?r < 208"
    by (simp add: SERIAL_TOP_def)
  have ur: "unat (of_nat ?r :: u8) = ?r"
    using rb by (simp add: unat_of_nat)
  have sub: "?r \<le> unat (TCNT1 s) \<Longrightarrow> unat (TCNT1 s - of_nat ?r) = unat (TCNT1 s) - ?r"
    using ur by (simp add: unat_sub word_le_nat_alt)
  have "alarm_ticks d div (SERIAL_TOP + 1) < 2 ^ 32"
    using alarm_ticks_le [of d] by (simp add: SERIAL_TOP_def div_le_dividend less_le_trans)
  then have ud: "unat (of_nat (alarm_ticks d div (SERIAL_TOP + 1)) :: u32) =
      alarm_ticks d div (SERIAL_TOP + 1)"
    by (simp add: unat_of_nat)
  have blocks: "(fdserial_alarm d s = None) = (send_ready s = 0)"
    by (simp add: fdserial_alarm_eq)
  have run: "case fdserial_alarm d s of
         None \<Rightarrow> False
       | Some s' \<Rightarrow>
           unat (delay s') = alarm_ticks d div (SERIAL_TOP + 1) \<and>
           (?r \<le> unat (TCNT1 s) \<longrightarrow>
              unat (OCR1A s') = unat (TCNT1 s) - ?r \<and>
              (unat (TCNT1 s) \<le> SERIAL_TOP \<longrightarrow> unat (OCR1A s') \<le> SERIAL_TOP)) \<and>
           send_ready s' = 0 \<and> tx_state s' = 5"
    if "send_ready s \<noteq> 0"
    using that sub ud by (auto simp: fdserial_alarm_eq)
  show ?thesis
    using blocks run by (auto simp: alarm_ticks_small)
qed

theorem fdserial_alarm_effect_witness:
  "send_ready (power_on None 0) = 0 \<and>
   fdserial_alarm 1 (power_on None 0) = None \<and>
   send_ready (fdserial_init None (power_on None 0)\<lparr>TCNT1 := 150\<rparr>) \<noteq> 0 \<and>
   unat (1 :: u32) * CPU_FREQ < 2 ^ 32 \<and>
   unat (1 :: u32) * CPU_FREQ div PRESCALER_DIVISOR div 1000 = 2000 \<and>
   unat (1 :: u32) * CPU_FREQ div PRESCALER_DIVISOR div 1000 mod (SERIAL_TOP + 1) \<le>
     unat (TCNT1 (fdserial_init None (power_on None 0)\<lparr>TCNT1 := 150\<rparr>)) \<and>
   unat (TCNT1 (fdserial_init None (power_on None 0)\<lparr>TCNT1 := 150\<rparr>)) \<le> SERIAL_TOP \<and>
   (case fdserial_alarm 1 (fdserial_init None (power_on None 0)\<lparr>TCNT1 := 150\<rparr>) of
      None \<Rightarrow> False
    | Some s' \<Rightarrow> unat (delay s') = 9 \<and> unat (OCR1A s') = 22 \<and> send_ready s' = 0)"
proof -
  let ?s = "fdserial_init None (power_on None 0)\<lparr>TCNT1 := 150\<rparr>"
  let ?T = "unat (1 :: u32) * CPU_FREQ div PRESCALER_DIVISOR div 1000"
  have h0: "send_ready (power_on None 0) = 0"
    by (simp add: power_on_def)
  have h1: "send_ready ?s \<noteq> 0"
    by (simp add: fdserial_init_simple)
  have h2: "unat (1 :: u32) * CPU_FREQ < 2 ^ 32"
    by (simp add: CPU_FREQ_def)
  have t: "?T = 2000"
    by (simp add: CPU_FREQ_def PRESCALER_DIVISOR_def)
  have h3: "?T mod (SERIAL_TOP + 1) \<le> unat (TCNT1 ?s)"
    by (simp add: CPU_FREQ_def PRESCALER_DIVISOR_def SERIAL_TOP_def)
  have h4: "unat (TCNT1 ?s) \<le> SERIAL_TOP"
    by (simp add: SERIAL_TOP_def)
  have a: "fdserial_alarm 1 (power_on None 0) = None"
    using h0 fdserial_alarm_effect [of 1 "power_on None 0"] by blast
  obtain s' where s': "fdserial_alarm 1 ?s = Some s'"
      "unat (delay s') = ?T div (SERIAL_TOP + 1)"
      "unat (OCR1A s') = unat (TCNT1 ?s) - ?T mod (SERIAL_TOP + 1)"
      "send_ready s' = 0"
    using h1 h2 h3 fdserial_alarm_effect [of 1 ?s] by (cases "fdserial_alarm 1 ?s") auto
  have "unat (delay s') = 9" "unat (OCR1A s') = 22"
    using s'(2,3) by (simp_all add: CPU_FREQ_def PRESCALER_DIVISOR_def SERIAL_TOP_def)
  then show ?thesis
    using h0 h1 h2 h3 h4 t a s'(1,4) by simp
qed

text \<open>
  C6 as the specification states it fails for one millisecond: the countdown is 9
  periods where the ceiling is 10, and with the counter at 100 the value written to
  \<open>OCR1A\<close> is 228, above \<open>SERIAL_TOP\<close>. For 1000 milliseconds the 32-bit product has
  wrapped, and the countdown is 4453 periods where the ceiling is 9616.
\<close>

theorem fdserial_alarm_counterexample:
  "map_option (\<lambda>s'. unat (delay s'))
     (fdserial_alarm 1 (fdserial_init None (power_on None 0)\<lparr>TCNT1 := 100\<rparr>)) = Some 9 \<and>
   spec_alarm_periods 1 = 10 \<and>
   map_option (\<lambda>s'. unat (OCR1A s'))
     (fdserial_alarm 1 (fdserial_init None (power_on None 0)\<lparr>TCNT1 := 100\<rparr>)) = Some 228 \<and>
   \<not> 228 \<le> SERIAL_TOP \<and>
   map_option (\<lambda>s'. unat (delay s'))
     (fdserial_alarm 1000 (fdserial_init None (power_on None 0)\<lparr>TCNT1 := 100\<rparr>)) =
     Some 4453 \<and>
   spec_alarm_periods 1000 = 9616"
proof -
  have t: "alarm_ticks 1 = 2000" "alarm_ticks 1000 = 926258"
    by (simp_all add: alarm_ticks_def CPU_FREQ_def PRESCALER_DIVISOR_def)
  have "spec_alarm_periods 1 = 10" "spec_alarm_periods 1000 = 9616"
    by (simp_all add: spec_alarm_periods_def CPU_FREQ_def PRESCALER_DIVISOR_def SERIAL_TOP_def)
  moreover have "map_option (\<lambda>s'. unat (delay s'))
     (fdserial_alarm 1 (fdserial_init None (power_on None 0)\<lparr>TCNT1 := 100\<rparr>)) = Some 9"
    by (simp add: fdserial_alarm_eq fdserial_init_simple t SERIAL_TOP_def)
  moreover have "map_option (\<lambda>s'. unat (OCR1A s'))
     (fdserial_alarm 1 (fdserial_init None (power_on None 0)\<lparr>TCNT1 := 100\<rparr>)) = Some 228"
    by (simp add: fdserial_alarm_eq fdserial_init_simple t SERIAL_TOP_def)
  moreover have "map_option (\<lambda>s'. unat (delay s'))
     (fdserial_alarm 1000 (fdserial_init None (power_on None 0)\<lparr>TCNT1 := 100\<rparr>)) =
     Some 4453"
    by (simp add: fdserial_alarm_eq fdserial_init_simple t SERIAL_TOP_def)
  ultimately show ?thesis
    by (simp add: SERIAL_TOP_def)
qed

subsection \<open>The ring as a list\<close>

lemma ring_list_Cons:
  assumes "h < n" "t < n" "h \<noteq> t"
  shows "ring_list n buf h t = buf ! t # ring_list n buf h (adv n t)"
proof -
  have c: "ring_count n h t = Suc (ring_count n h (adv n t))"
    using assms by (auto simp: ring_count_def adv_def)
  have i: "\<And>i. i < ring_count n h (adv n t) \<Longrightarrow> ring_index n t (Suc i) = ring_index n (adv n t) i"
    using assms by (auto simp: ring_count_def ring_index_def adv_def split: if_splits)
  have z: "ring_index n t 0 = t"
    using assms by (simp add: ring_index_def)
  show ?thesis
    unfolding ring_list_def c map_upt_Suc using i z by simp
qed

lemma ring_list_push:
  assumes "h < n" "t < n" "length buf = n" "adv n h \<noteq> t"
  shows "ring_list n (buf[h := b]) (adv n h) t = ring_list n buf h t @ [b]"
proof -
  have c: "ring_count n (adv n h) t = Suc (ring_count n h t)"
    using assms by (auto simp: ring_count_def adv_def)
  have i: "\<forall>i < ring_count n h t. ring_index n t i \<noteq> h"
    using assms by (auto simp: ring_count_def ring_index_def split: if_splits)
  have l: "ring_index n t (ring_count n h t) = h"
    using assms by (auto simp: ring_count_def ring_index_def split: if_splits)
  show ?thesis
    unfolding ring_list_def c using i l assms(1,3) by (auto simp: nth_list_update)
qed

lemma ring_list_push_full:
  assumes "h < n" "t < n" "length buf = n" "adv n h = t"
  shows "ring_list n (buf[h := b]) (adv n h) (adv n t) = drop 1 (ring_list n buf h t @ [b])"
proof (rule nth_equalityI)
  have c: "ring_count n h t = n - 1"
    using assms by (auto simp: ring_count_def adv_def split: if_splits)
  have c': "ring_count n (adv n h) (adv n t) = n - 1"
    using assms by (auto simp: ring_count_def adv_def split: if_splits)
  show len: "length (ring_list n (buf[h := b]) (adv n h) (adv n t)) = length (drop 1 (ring_list n buf h t @ [b]))"
    by (simp add: ring_list_def c c')
  fix i assume "i < length (ring_list n (buf[h := b]) (adv n h) (adv n t))"
  then have i: "i < n - 1" by (simp add: ring_list_def c')
  have ix: "ring_index n (adv n t) i = ring_index n t (Suc i)"
    using assms i by (auto simp: ring_index_def adv_def split: if_splits)
  have hh: "(ring_index n t (Suc i) = h) = (Suc i = n - 1)"
    using assms i by (auto simp: ring_index_def adv_def split: if_splits)
  have lhs: "ring_list n (buf[h := b]) (adv n h) (adv n t) ! i = buf[h := b] ! ring_index n t (Suc i)"
    using i by (simp add: ring_list_def c' ix)
  have rhs: "drop 1 (ring_list n buf h t @ [b]) ! i =
      (if Suc i = n - 1 then b else buf ! ring_index n t (Suc i))"
    using i by (auto simp: ring_list_def c nth_append)
  show "ring_list n (buf[h := b]) (adv n h) (adv n t) ! i = drop 1 (ring_list n buf h t @ [b]) ! i"
  proof (cases "Suc i = n - 1")
    case True
    then have "ring_index n t (Suc i) = h" using hh by simp
    then show ?thesis unfolding lhs rhs using True assms(1,3) by simp
  next
    case False
    then have "ring_index n t (Suc i) \<noteq> h" using hh by simp
    then show ?thesis unfolding lhs rhs using False by simp
  qed
qed

lemma ring_count_zero: "h < n \<Longrightarrow> t < n \<Longrightarrow> (ring_count n h t = 0) = (h = t)"
  by (auto simp: ring_count_def)

lemma ring_count_lt: "h < n \<Longrightarrow> t < n \<Longrightarrow> ring_count n h t < n"
  by (auto simp: ring_count_def)

lemma ring_count_full: "h < n \<Longrightarrow> t < n \<Longrightarrow> adv n h = t \<Longrightarrow> ring_count n h t = n - 1"
  by (auto simp: ring_count_def adv_def split: if_splits)

lemma ring_count_not_full:
  "h < n \<Longrightarrow> t < n \<Longrightarrow> adv n h \<noteq> t \<Longrightarrow> ring_count n h t + 1 < n"
  by (auto simp: ring_count_def adv_def split: if_splits)

lemma adv_lt: "i < n \<Longrightarrow> adv n i < n"
  by (auto simp: adv_def)

subsection \<open>The ring in the machine state\<close>

lemma unat_advance:
  assumes "0 < n" "n \<le> 256" "unat i < n"
  shows "unat (advance n i) = (if unat i + 1 = n then 0 else unat i + 1)"
proof -
  have "(int (unat i) = int n - 1) = (unat i + 1 = n)"
    using assms(1) by linarith
  then have c: "(uint i = int n - 1) = (unat i + 1 = n)"
    by (simp only: uint_nat)
  have "unat i + 1 \<noteq> n \<Longrightarrow> unat (i + 1) = unat i + 1"
    using assms by (simp add: unat_word_ariths)
  then show ?thesis
    by (simp add: advance_def c)
qed

lemma unat_u8_lt: "unat (w :: u8) < 256"
proof -
  have "unat w < 2 ^ LENGTH(8)"
    by (rule unsigned_less)
  then show ?thesis
    by simp
qed

lemma advance_lt:
  assumes "0 < n" "unat i < n"
  shows "unat (advance n i) < n"
proof (cases "n \<le> 256")
  case True
  then show ?thesis
    using assms by (simp add: unat_advance)
next
  case False
  then show ?thesis
    using unat_u8_lt [of "advance n i"] by simp
qed

lemma ring_ok_publish:
  assumes "0 < n" "ring_ok n s"
  shows "ring_ok n (publish (Some n) s)"
  using assms by (auto simp: ring_ok_def publish_def Let_def advance_lt)

lemma ring_ok_COMPB:
  assumes "0 < n" "ring_ok n s"
  shows "ring_ok n (ISR_TIMER1_COMPB (Some n) s)"
proof -
  have "ring_ok n (publish (Some n) s)"
    using assms by (rule ring_ok_publish)
  then have "ring_ok n (enable_int0 (stop_rx ((publish (Some n) s)\<lparr>rx_state := 0\<rparr>)))"
    by (simp add: ring_ok_def enable_int0_def stop_rx_def Let_def)
  then show ?thesis
    using assms(2) by (simp add: ISR_TIMER1_COMPB_def Let_def ring_ok_def)
qed

lemma ring_ok_COMPA: "ring_ok n (ISR_TIMER1_COMPA s) = ring_ok n s"
  by (simp add: ISR_TIMER1_COMPA_def Let_def ring_ok_def stop_tx_def)

lemma ring_ok_INT0: "ring_ok n (ISR_INT0 s) = ring_ok n s"
  by (simp add: ISR_INT0_def Let_def ring_ok_def start_rx_def disable_int0_def)

lemma ring_ok_send: "fdserial_send b s = Some s' \<Longrightarrow> ring_ok n s' = ring_ok n s"
  by (auto simp: fdserial_send_def Let_def ring_ok_def start_tx_def split: if_splits)

lemma ring_ok_alarm: "fdserial_alarm d s = Some s' \<Longrightarrow> ring_ok n s' = ring_ok n s"
  by (auto simp: fdserial_alarm_def Let_def ring_ok_def split: if_splits)

lemma ring_ok_recv:
  "0 < n \<Longrightarrow> ring_ok n s \<Longrightarrow> fdserial_recv (Some n) s = Some (c, s') \<Longrightarrow> ring_ok n s'"
  using advance_lt [of n "rx_tail s"]
  by (auto simp: fdserial_recv_def Let_def ring_ok_def split: if_splits)

lemma ring_ok_init:
  "0 < n \<Longrightarrow> length (rx_buf s) = n \<Longrightarrow> ring_ok n (fdserial_init (Some n) s)"
  by (simp add: fdserial_init_def Let_def ring_ok_def enable_int0_def
      starttimer_def stoptimer_def)

lemma unat_advance_adv:
  "0 < n \<Longrightarrow> n \<le> 256 \<Longrightarrow> unat i < n \<Longrightarrow> unat (advance n i) = adv n (unat i)"
  by (simp add: unat_advance adv_def)

lemma length_ring_contents:
  "length (ring_contents n s) = ring_count n (unat (rx_head s)) (unat (rx_tail s))"
  by (simp add: ring_contents_def ring_list_def)

lemma ring_contents_empty:
  assumes "ring_ok n s"
  shows "(ring_contents n s = []) = (rx_head s = rx_tail s)"
proof -
  have b: "unat (rx_head s) < n" "unat (rx_tail s) < n"
    using assms by (simp_all add: ring_ok_def)
  have "(ring_contents n s = []) = (length (ring_contents n s) = 0)"
    by simp
  also have "\<dots> = (ring_count n (unat (rx_head s)) (unat (rx_tail s)) = 0)"
    by (simp only: length_ring_contents)
  also have "\<dots> = (unat (rx_head s) = unat (rx_tail s))"
    using b by (rule ring_count_zero)
  also have "\<dots> = (rx_head s = rx_tail s)"
    by (simp add: word_unat_eq_iff)
  finally show ?thesis .
qed

lemma ring_contents_publish:
  assumes "0 < n" "n \<le> 256" "ring_ok n s"
  shows "ring_contents n (publish (Some n) s) =
     drop (length (ring_contents n s) + 1 - (n - 1)) (ring_contents n s @ [recv_shift s])"
proof -
  let ?h = "unat (rx_head s)" and ?t = "unat (rx_tail s)"
  have b: "?h < n" "?t < n" "length (rx_buf s) = n"
    using assms(3) by (simp_all add: ring_ok_def)
  have uh: "unat (advance n (rx_head s)) = adv n ?h"
    using assms(1,2) b(1) by (rule unat_advance_adv)
  have ut: "unat (advance n (rx_tail s)) = adv n ?t"
    using assms(1,2) b(2) by (rule unat_advance_adv)
  have eq: "(advance n (rx_head s) = rx_tail s) = (adv n ?h = ?t)"
    by (simp add: word_unat_eq_iff uh)
  show ?thesis
  proof (cases "adv n ?h = ?t")
    case True
    have "ring_contents n (publish (Some n) s) =
        ring_list n ((rx_buf s)[?h := recv_shift s]) (adv n ?h) (adv n ?t)"
      using True by (simp add: ring_contents_def publish_def Let_def eq uh ut)
    also have "\<dots> = drop 1 (ring_list n (rx_buf s) ?h ?t @ [recv_shift s])"
      using b True by (rule ring_list_push_full)
    finally have e: "ring_contents n (publish (Some n) s) =
        drop 1 (ring_contents n s @ [recv_shift s])"
      by (simp only: ring_contents_def)
    have "length (ring_contents n s) + 1 - (n - 1) = 1"
      using ring_count_full [OF b(1,2) True] assms(1) by (simp add: length_ring_contents)
    then show ?thesis
      using e by (simp only:)
  next
    case False
    have "ring_contents n (publish (Some n) s) =
        ring_list n ((rx_buf s)[?h := recv_shift s]) (adv n ?h) ?t"
      using False by (simp add: ring_contents_def publish_def Let_def eq uh)
    also have "\<dots> = ring_list n (rx_buf s) ?h ?t @ [recv_shift s]"
      using b False by (rule ring_list_push)
    finally have e: "ring_contents n (publish (Some n) s) = ring_contents n s @ [recv_shift s]"
      by (simp only: ring_contents_def)
    have "length (ring_contents n s) + 1 - (n - 1) = 0"
      using ring_count_not_full [OF b(1,2) False] by (simp add: length_ring_contents)
    then show ?thesis
      using e by (simp only: drop_0)
  qed
qed

lemma head_tail_publish:
  assumes "0 < n" "n \<le> 256" "ring_ok n s"
  shows "(rx_head (publish (Some n) s) = rx_tail (publish (Some n) s)) = (n = 1)"
proof -
  let ?h = "unat (rx_head s)" and ?t = "unat (rx_tail s)"
  have b: "?h < n" "?t < n"
    using assms(3) by (simp_all add: ring_ok_def)
  have uh: "unat (advance n (rx_head s)) = adv n ?h"
    using assms(1,2) b(1) by (rule unat_advance_adv)
  have ut: "unat (advance n (rx_tail s)) = adv n ?t"
    using assms(1,2) b(2) by (rule unat_advance_adv)
  have "(unat (rx_head (publish (Some n) s)) = unat (rx_tail (publish (Some n) s))) = (n = 1)"
    using b by (auto simp: publish_def Let_def word_unat_eq_iff uh ut adv_def split: if_splits)
  then show ?thesis
    by (simp add: word_unat_eq_iff)
qed

lemma fdserial_recv_ring:
  assumes "0 < n" "n \<le> 256" "ring_ok n s"
  shows "fdserial_recv (Some n) s =
     (case ring_contents n s of
        [] \<Rightarrow> None
      | c # cs \<Rightarrow> Some (c, s\<lparr>rx_tail := advance n (rx_tail s)\<rparr>))"
    and "ring_contents n s \<noteq> [] \<Longrightarrow>
      ring_contents n (s\<lparr>rx_tail := advance n (rx_tail s)\<rparr>) = tl (ring_contents n s)"
proof -
  let ?h = "unat (rx_head s)" and ?t = "unat (rx_tail s)"
  have b: "?h < n" "?t < n"
    using assms(3) by (simp_all add: ring_ok_def)
  have ut: "unat (advance n (rx_tail s)) = adv n ?t"
    using assms(1,2) b(2) by (rule unat_advance_adv)
  have c: "ring_contents n s =
      rx_buf s ! ?t # ring_contents n (s\<lparr>rx_tail := advance n (rx_tail s)\<rparr>)"
    if "rx_head s \<noteq> rx_tail s"
  proof -
    have "?h \<noteq> ?t"
      using that by (simp add: word_unat_eq_iff)
    then show ?thesis
      using ring_list_Cons [OF b, of "rx_buf s"] by (simp add: ring_contents_def ut)
  qed
  show "fdserial_recv (Some n) s =
     (case ring_contents n s of
        [] \<Rightarrow> None
      | c # cs \<Rightarrow> Some (c, s\<lparr>rx_tail := advance n (rx_tail s)\<rparr>))"
  proof (cases "rx_head s = rx_tail s")
    case True
    then have "ring_contents n s = []"
      using assms(3) by (simp add: ring_contents_empty)
    then show ?thesis
      using True by (simp add: fdserial_recv_def)
  next
    case False
    then show ?thesis
      using c [OF False] by (simp add: fdserial_recv_def Let_def)
  qed
  show "ring_contents n (s\<lparr>rx_tail := advance n (rx_tail s)\<rparr>) = tl (ring_contents n s)"
    if "ring_contents n s \<noteq> []"
  proof -
    have "rx_head s \<noteq> rx_tail s"
      using that assms(3) by (simp add: ring_contents_empty)
    then show ?thesis
      using c by simp
  qed
qed

lemma ring_ok_advance_tail:
  "0 < n \<Longrightarrow> ring_ok n s \<Longrightarrow> ring_ok n (s\<lparr>rx_tail := advance n (rx_tail s)\<rparr>)"
  by (simp add: ring_ok_def advance_lt)

lemma recv_many_ring:
  assumes "0 < n" "n \<le> 256"
  shows "ring_ok n s \<Longrightarrow> length (ring_contents n s) = k \<Longrightarrow>
     map_option fst (recv_many (Some n) k s) = Some (ring_contents n s) \<and>
     recv_many (Some n) (Suc k) s = None"
proof (induction k arbitrary: s)
  case 0
  then show ?case
    using fdserial_recv_ring(1) [OF assms "0.prems"(1)] by simp
next
  case (Suc k)
  let ?s' = "s\<lparr>rx_tail := advance n (rx_tail s)\<rparr>"
  obtain c cs where cs: "ring_contents n s = c # cs"
    using Suc.prems(2) by (cases "ring_contents n s") auto
  have r: "fdserial_recv (Some n) s = Some (c, ?s')"
    using fdserial_recv_ring(1) [OF assms Suc.prems(1)] by (simp add: cs)
  have t: "ring_contents n ?s' = cs"
    using fdserial_recv_ring(2) [OF assms Suc.prems(1)] by (simp add: cs)
  have ok: "ring_ok n ?s'"
    using assms(1) Suc.prems(1) by (rule ring_ok_advance_tail)
  have len: "length (ring_contents n ?s') = k"
    using Suc.prems(2) by (simp add: t cs)
  have ih: "map_option fst (recv_many (Some n) k ?s') = Some cs \<and>
      recv_many (Some n) (Suc k) ?s' = None"
    using Suc.IH [OF ok len] by (simp add: t)
  show ?case
    using ih recv_many.simps(2) [of "Some n" k s] recv_many.simps(2) [of "Some n" "Suc k" s]
    by (auto simp: r cs split: option.splits simp del: recv_many.simps)
qed

subsection \<open>The value of \<open>fdserial_available\<close>\<close>

lemma signed_byte_cases:
  fixes x :: int
  assumes "- 256 < x" "x < 256"
  shows "(x + 128) mod 256 - 128 =
     (if x < - 128 then x + 256 else if x < 128 then x else x - 256)"
proof -
  have a: "(x + 128) mod 256 = x + 128 + 256" if "x < - 128"
  proof -
    have "0 \<le> x + 128 + 256 \<and> x + 128 + 256 < 256"
      using that assms by linarith
    then have "(x + 128 + 256) mod 256 = x + 128 + 256"
      by (intro mod_pos_pos_trivial) auto
    moreover have "(x + 128 + 256) mod 256 = (x + 128) mod 256"
      by (rule mod_add_self2)
    ultimately show ?thesis by (simp only:)
  qed
  have b: "(x + 128) mod 256 = x + 128" if "- 128 \<le> x" "x < 128"
    using that by (intro mod_pos_pos_trivial) auto
  have c: "(x + 128) mod 256 = x + 128 - 256" if "128 \<le> x"
  proof -
    have "0 \<le> x + 128 - 256 \<and> x + 128 - 256 < 256"
      using that assms by linarith
    then have "(x + 128 - 256) mod 256 = x + 128 - 256"
      by (intro mod_pos_pos_trivial) auto
    moreover have "(x + 128 - 256 + 256) mod 256 = (x + 128 - 256) mod 256"
      by (rule mod_add_self2)
    moreover have "x + 128 - 256 + 256 = x + 128"
      by simp
    ultimately show ?thesis by (simp only:)
  qed
  show ?thesis
    using a b c by auto
qed

lemma sint_word_of_int_u8: "sint (word_of_int k :: u8) = (k + 128) mod 256 - 128"
  by (simp add: sint_sbintrunc' signed_take_bit_eq_take_bit_shift take_bit_eq_mod)

lemma uint_word_of_int_u8: "uint (word_of_int k :: u8) = k mod 256"
  by (simp add: uint_word_of_int)


lemma uint_fdserial_available:
  "uint (fdserial_available (Some n) s) =
     (let d = (uint (rx_head s) - uint (rx_tail s) + 128) mod 256 - 128
      in (if d < 0 then d + int n else d) mod 256)"
  unfolding fdserial_available_def fdserial_available_c_def Let_def option.case if_True
    sint_word_of_int_u8
  by (simp only: uint_word_of_int_u8 if_distrib [of uint] if_distrib [of "\<lambda>x. x mod 256"])

lemma uint_lt_of_unat_lt: "unat (w :: u8) < n \<Longrightarrow> 0 \<le> uint w \<and> uint w < int n"
proof -
  assume a: "unat w < n"
  have "uint w = int (unat w)"
    by (rule uint_nat)
  then show ?thesis
    using a by linarith
qed


lemma available_value:
  assumes "0 < n" "n \<le> 256" "unat (rx_head s) < n" "unat (rx_tail s) < n"
  shows "uint (fdserial_available (Some n) s) =
     (let x = uint (rx_head s) - uint (rx_tail s)
      in if x < - 128 then x + 256
         else if x < 0 then x + int n
         else if x < 128 then x
         else x - 256 + int n)"
proof -
  define x where "x = uint (rx_head s) - uint (rx_tail s)"
  define m where "m = int n"
  have m: "0 < m" "m \<le> 256"
    using assms(1,2) by (simp_all add: m_def)
  have x: "- m < x \<and> x < m"
    unfolding x_def m_def
    using uint_lt_of_unat_lt [OF assms(3)] uint_lt_of_unat_lt [OF assms(4)] by linarith
  have d: "(x + 128) mod 256 - 128 =
      (if x < - 128 then x + 256 else if x < 128 then x else x - 256)"
    using x m by (intro signed_byte_cases) linarith+
  define e where "e = (if x < - 128 then x + 256 else if x < 0 then x + m
      else if x < 128 then x else x - 256 + m)"
  have e: "0 \<le> e \<and> e < 256"
    using x m unfolding e_def by (auto split: if_splits)
  have "(let d = (x + 128) mod 256 - 128 in (if d < 0 then d + m else d) mod 256) = e mod 256"
    using x m unfolding Let_def d e_def by (auto split: if_splits)
  also have "\<dots> = e"
    using e by (intro mod_pos_pos_trivial) auto
  finally show ?thesis
    unfolding uint_fdserial_available x_def [symmetric] m_def [symmetric] e_def Let_def .
qed

lemma available_value_nat:
  assumes "0 < n" "n \<le> 256" "unat (rx_head s) < n" "unat (rx_tail s) < n"
  shows "int (unat (fdserial_available (Some n) s)) =
     (let x = int (unat (rx_head s)) - int (unat (rx_tail s))
      in if x < - 128 then x + 256
         else if x < 0 then x + int n
         else if x < 128 then x
         else x - 256 + int n)"
  using available_value [OF assms] by (simp only: uint_nat)

lemma available_lt:
  assumes "0 < n" "unat (rx_head s) < n" "unat (rx_tail s) < n"
  shows "unat (fdserial_available (Some n) s) < n"
proof (cases "n \<le> 256")
  case True
  define H where "H = unat (rx_head s)"
  define T where "T = unat (rx_tail s)"
  define A where "A = unat (fdserial_available (Some n) s)"
  have v: "int A = (let x = int H - int T
      in if x < - 128 then x + 256 else if x < 0 then x + int n
         else if x < 128 then x else x - 256 + int n)"
    unfolding A_def H_def T_def using assms(1) True assms(2,3) by (rule available_value_nat)
  have "H < n" "T < n"
    using assms(2,3) by (simp_all add: H_def T_def)
  then have "A < n"
    using v assms(1) True unfolding Let_def by (auto split: if_splits)
  then show ?thesis
    by (simp add: A_def)
next
  case False
  then show ?thesis
    using unat_u8_lt [of "fdserial_available (Some n) s"] by simp
qed

lemma available_eq:
  assumes "0 < n" "n \<le> 128" "unat (rx_head s) < n" "unat (rx_tail s) < n"
  shows "unat (fdserial_available (Some n) s) =
     ring_count n (unat (rx_head s)) (unat (rx_tail s))"
proof -
  define H where "H = unat (rx_head s)"
  define T where "T = unat (rx_tail s)"
  define A where "A = unat (fdserial_available (Some n) s)"
  have n: "n \<le> 256"
    using assms(2) by simp
  have v: "int A = (let x = int H - int T
      in if x < - 128 then x + 256 else if x < 0 then x + int n
         else if x < 128 then x else x - 256 + int n)"
    unfolding A_def H_def T_def using assms(1) n assms(3,4) by (rule available_value_nat)
  have "H < n" "T < n"
    using assms(3,4) by (simp_all add: H_def T_def)
  then have "A = ring_count n H T"
    using v assms(1,2) unfolding Let_def ring_count_def by (auto split: if_splits)
  then show ?thesis
    by (simp add: A_def H_def T_def)
qed

subsection \<open>The count of unread bytes\<close>

lemma ring_count_mod:
  assumes "0 < n" "h < n" "t < n"
  shows "int (ring_count n h t) = (int h - int t + int n) mod int n"
proof (cases "t \<le> h")
  case True
  have "(int h - int t + int n) mod int n = (int h - int t) mod int n"
    by (rule mod_add_self2)
  also have "\<dots> = int h - int t"
    using True assms by (intro mod_pos_pos_trivial) auto
  finally show ?thesis
    using True by (simp add: ring_count_def)
next
  case False
  have "(int h - int t + int n) mod int n = int h - int t + int n"
    using False assms by (intro mod_pos_pos_trivial) auto
  then show ?thesis
    using False assms by (simp add: ring_count_def)
qed

text \<open>
  With at most 128 slots and the indices inside the array the difference of the indices
  fits the signed \<^verbatim>\<open>char\<close>, and \<open>fdserial_available\<close> returns the number of unread
  bytes, \<open>(head - tail + n) mod n\<close>.
\<close>

lemma fdserial_available_small_ring:
  assumes "0 < n" "n \<le> 128" "unat (rx_head s) < n" "unat (rx_tail s) < n"
  shows "int (unat (fdserial_available (Some n) s)) =
           (int (unat (rx_head s)) - int (unat (rx_tail s)) + int n) mod int n"
    and "unat (fdserial_available (Some n) s) = length (ring_contents n s)"
proof -
  have e: "unat (fdserial_available (Some n) s) =
      ring_count n (unat (rx_head s)) (unat (rx_tail s))"
    using assms by (rule available_eq)
  show "int (unat (fdserial_available (Some n) s)) =
      (int (unat (rx_head s)) - int (unat (rx_tail s)) + int n) mod int n"
    unfolding e using assms(1,3,4) by (rule ring_count_mod)
  show "unat (fdserial_available (Some n) s) = length (ring_contents n s)"
    unfolding e by (simp add: length_ring_contents)
qed

text \<open>
  C9 fails on the code: in ring mode \<open>fdserial_available\<close> is to return
  \<open>(head - tail + N) mod N\<close>, the number of unread bytes, for all indices in \<open>[0, N)\<close>.
  The function computes that number but keeps the difference of the indices in a plain
  \<^verbatim>\<open>char\<close>. In a ring of 200 slots with \<open>rx_head = 199\<close> and \<open>rx_tail = 0\<close>, where 199
  bytes are unread, the signed \<^verbatim>\<open>char\<close> reads \<open>- 57\<close> and the value returned is 143.
  Compiled with an unsigned \<^verbatim>\<open>char\<close> the test \<^verbatim>\<open>d < 0\<close> never holds: in a ring of 4
  slots with \<open>rx_head = 0\<close> and \<open>rx_tail = 1\<close>, where 3 bytes are unread, the value
  returned is 255.
\<close>

theorem fdserial_available_wrong_count:
  "fdserial_available (Some 200)
     (power_on (Some 200) 0\<lparr>rx_head := 199, rx_tail := 0\<rparr>) = 143 \<and>
   (199 - 0 + 200) mod 200 = (199 :: int) \<and>
   length (ring_contents 200 (power_on (Some 200) 0\<lparr>rx_head := 199, rx_tail := 0\<rparr>)) = 199 \<and>
   fdserial_available_c False (Some 4)
     (power_on (Some 4) 0\<lparr>rx_head := 0, rx_tail := 1\<rparr>) = 255 \<and>
   (0 - 1 + 4) mod 4 = (3 :: int) \<and>
   length (ring_contents 4 (power_on (Some 4) 0\<lparr>rx_head := 0, rx_tail := 1\<rparr>)) = 3"
  by (simp add: fdserial_available_def fdserial_available_c_def length_ring_contents
      ring_count_def)

subsection \<open>Calls and characters as runs of the program\<close>

text \<open>
  A foreground call that no handler preempts, and a character that arrives on the line,
  are runs of the program: the functions that the other sections reason with describe
  states the program gets to.
\<close>

lemma running_run: "running rb (Code v c k) s \<Longrightarrow> running rb k (run c v s)"
proof (induction c arbitrary: v s)
  case Nil
  then show ?case
    by (simp add: running.return)
next
  case (Cons a c)
  show ?case
  proof (cases a)
    case (Load f)
    have "running rb (Code (f v s) c k) s"
      using Cons.prems unfolding Load by (rule running.load)
    then show ?thesis
      unfolding Load by (simp add: Cons.IH)
  next
    case (Store g)
    have "running rb (Code v c k) (g v s)"
      using Cons.prems unfolding Store by (rule running.store)
    then show ?thesis
      unfolding Store by (simp add: Cons.IH)
  qed
qed

lemma run_fdserial_init: "run (fdserial_init_code rb) v s = fdserial_init rb s"
  by (cases rb)
    (simp_all add: fdserial_init_code_def fdserial_init_def Let_def starttimer_code_def
      stoptimer_code_def enable_int0_code_def starttimer_def stoptimer_def enable_int0_def)

lemma run_fdserial_send:
  "send_ready s \<noteq> 0 \<Longrightarrow> fdserial_send b s = Some (run (fdserial_send_code b) v s)"
  by (simp add: fdserial_send_code_def fdserial_send_def Let_def start_tx_code_def start_tx_def)

lemma run_fdserial_alarm:
  "send_ready s \<noteq> 0 \<Longrightarrow> fdserial_alarm d s = Some (run (fdserial_alarm_code d) v s)"
  by (simp add: fdserial_alarm_code_def fdserial_alarm_def Let_def)

lemma running_init: "running rb Idle s \<Longrightarrow> running rb Idle (fdserial_init rb s)"
proof -
  assume "running rb Idle s"
  then have "running rb (Code 0 (fdserial_init_code rb) Idle) s"
    unfolding fdserial_init_fg_def [symmetric] by (rule running.call_init)
  then have "running rb Idle (run (fdserial_init_code rb) 0 s)"
    by (rule running_run)
  then show ?thesis
    by (simp only: run_fdserial_init)
qed

lemma running_send:
  assumes "running rb Idle s" "fdserial_send b s = Some s'"
  shows "running rb Idle s'"
proof -
  have r: "send_ready s \<noteq> 0"
    using assms(2) by (auto simp: fdserial_send_def split: if_splits)
  have "running rb (Spin send_ready (Code 0 (fdserial_send_code b) Idle)) s"
    using assms(1) unfolding fdserial_send_fg_def [symmetric] by (rule running.call_send)
  then have "running rb (Code 0 (fdserial_send_code b) Idle) s"
    using r by (rule running.spin)
  then have "running rb Idle (run (fdserial_send_code b) 0 s)"
    by (rule running_run)
  then show ?thesis
    using assms(2) run_fdserial_send [OF r, of b 0] by simp
qed

lemma running_alarm:
  assumes "running rb Idle s" "fdserial_alarm d s = Some s'"
  shows "running rb Idle s'"
proof -
  have r: "send_ready s \<noteq> 0"
    using assms(2) by (auto simp: fdserial_alarm_def Let_def split: if_splits)
  have "running rb (Spin send_ready (Code 0 (fdserial_alarm_code d) Idle)) s"
    using assms(1) unfolding fdserial_alarm_fg_def [symmetric] by (rule running.call_alarm)
  then have "running rb (Code 0 (fdserial_alarm_code d) Idle) s"
    using r by (rule running.spin)
  then have "running rb Idle (run (fdserial_alarm_code d) 0 s)"
    by (rule running_run)
  then show ?thesis
    using assms(2) run_fdserial_alarm [OF r, of d 0] by simp
qed

lemma running_recv_test:
  assumes "running (Some n) Idle s" "rx_head s \<noteq> rx_tail s"
  shows "running (Some n)
     (if uint (rx_tail s) = int n - 1 then rx_tail_wrap else rx_tail_incr) s"
proof -
  let ?test = "Test (\<lambda>s. uint (rx_tail s) = int n - 1) rx_tail_wrap rx_tail_incr"
  let ?read = "Code 0 [Load (\<lambda>_. rx_tail), Load (\<lambda>v s. rx_buf s ! unat v)] ?test"
  have "running (Some n) (fdserial_recv_fg (Some n)) s"
    using assms(1) by (rule running.call_recv)
  then have "running (Some n) (Ring_wait ?read) s"
    by (simp add: fdserial_recv_fg_def)
  then have "running (Some n) (Ring_wait_tail (rx_head s) ?read) s"
    by (rule running.ring_head)
  then have "running (Some n) (if rx_head s = rx_tail s then Ring_wait ?read else ?read) s"
    by (rule running.ring_tail)
  then have "running (Some n) ?read s"
    using assms(2) by simp
  then have "running (Some n) ?test
      (run [Load (\<lambda>_. rx_tail), Load (\<lambda>v s. rx_buf s ! unat v)] 0 s)"
    by (rule running_run)
  then have "running (Some n) ?test s"
    by simp
  then show ?thesis
    by (rule running.test)
qed

lemma running_rx_tail_incr:
  "running rb rx_tail_incr s \<Longrightarrow> running rb Idle (s\<lparr>rx_tail := rx_tail s + 1\<rparr>)"
proof -
  assume "running rb rx_tail_incr s"
  then have "running rb Idle
      (run [Load (\<lambda>_. rx_tail), Store (\<lambda>v s. s\<lparr>rx_tail := v + 1\<rparr>)] 0 s)"
    unfolding rx_tail_incr_def by (rule running_run)
  then show ?thesis
    by simp
qed

lemma running_rx_tail_wrap:
  "running rb rx_tail_wrap s \<Longrightarrow> running rb Idle (s\<lparr>rx_tail := 0\<rparr>)"
proof -
  assume "running rb rx_tail_wrap s"
  then have "running rb Idle (run [Store (\<lambda>_ s. s\<lparr>rx_tail := 0\<rparr>)] 0 s)"
    unfolding rx_tail_wrap_def by (rule running_run)
  then show ?thesis
    by simp
qed

lemma running_recv:
  assumes "running rb Idle s" "fdserial_recv rb s = Some (c, s')"
  shows "running rb Idle s'"
proof (cases rb)
  case None
  have a: "available s \<noteq> 0" and s': "s' = s\<lparr>recv_byte := 0, available := 0\<rparr>"
    using assms(2) by (auto simp: None fdserial_recv_def Let_def split: if_splits)
  have "running rb (fdserial_recv_fg rb) s"
    using assms(1) by (rule running.call_recv)
  then have "running rb (Spin available
      (Code 0 [Load (\<lambda>_. recv_byte), Store (\<lambda>_ s. s\<lparr>recv_byte := 0\<rparr>),
               Store (\<lambda>_ s. s\<lparr>available := 0\<rparr>)] Idle)) s"
    by (simp add: None fdserial_recv_fg_def)
  then have "running rb (Code 0 [Load (\<lambda>_. recv_byte), Store (\<lambda>_ s. s\<lparr>recv_byte := 0\<rparr>),
               Store (\<lambda>_ s. s\<lparr>available := 0\<rparr>)] Idle) s"
    using a by (rule running.spin)
  then have "running rb Idle (run [Load (\<lambda>_. recv_byte), Store (\<lambda>_ s. s\<lparr>recv_byte := 0\<rparr>),
               Store (\<lambda>_ s. s\<lparr>available := 0\<rparr>)] 0 s)"
    by (rule running_run)
  then show ?thesis
    by (simp add: s')
next
  case (Some n)
  have a: "rx_head s \<noteq> rx_tail s" and s': "s' = s\<lparr>rx_tail := advance n (rx_tail s)\<rparr>"
    using assms(2) by (auto simp: Some fdserial_recv_def Let_def split: if_splits)
  have t: "running rb (if uint (rx_tail s) = int n - 1 then rx_tail_wrap else rx_tail_incr) s"
    using assms(1) a unfolding Some by (rule running_recv_test)
  show ?thesis
  proof (cases "uint (rx_tail s) = int n - 1")
    case True
    then have "running rb rx_tail_wrap s"
      using t by simp
    then have "running rb Idle (s\<lparr>rx_tail := 0\<rparr>)"
      by (rule running_rx_tail_wrap)
    then show ?thesis
      using True by (simp add: s' advance_def)
  next
    case False
    then have "running rb rx_tail_incr s"
      using t by simp
    then have "running rb Idle (s\<lparr>rx_tail := rx_tail s + 1\<rparr>)"
      by (rule running_rx_tail_incr)
    then show ?thesis
      using False by (simp add: s' advance_def)
  qed
qed

lemma running_tick:
  assumes "running rb fg s" "rx_tick_enabled s"
  shows "running rb fg (ISR_TIMER1_COMPB rb (rx_sample level s))"
proof -
  have e: "s\<lparr>TCNT1 := TCNT1 s, PINB := PINB (rx_sample level s)\<rparr> = rx_sample level s"
    by (simp add: rx_sample_def)
  have "running rb fg (s\<lparr>TCNT1 := TCNT1 s, PINB := PINB (rx_sample level s)\<rparr>)"
    using assms(1) by (rule running.hardware)
  then have r: "running rb fg (rx_sample level s)"
    by (simp only: e)
  have "rx_tick_enabled (rx_sample level s)"
    using assms(2) by (simp add: rx_tick_enabled_def rx_sample_def)
  with r show ?thesis
    by (rule running.compb)
qed

lemma rx_tick_enabled_fields:
  "rx_tick_enabled (rx_sample level s) = rx_tick_enabled s"
  "rx_tick_enabled (s\<lparr>rx_state := a\<rparr>) = rx_tick_enabled s"
  "rx_tick_enabled (s\<lparr>recv_bits := c\<rparr>) = rx_tick_enabled s"
  "rx_tick_enabled (s\<lparr>recv_shift := d\<rparr>) = rx_tick_enabled s"
  by (simp_all add: rx_tick_enabled_def rx_sample_def)

lemma running_rx_data:
  assumes "running rb fg s" "rx_state s = 0" "int0_enabled s"
  shows "running rb fg (rx_ticks rb (False # map (bit b) [0..<8]) (ISR_INT0 s))"
    and "rx_tick_enabled (rx_ticks rb (False # map (bit b) [0..<8]) (ISR_INT0 s))"
    and "rx_state (rx_ticks rb (False # map (bit b) [0..<8]) (ISR_INT0 s)) = 3"
proof -
  have 0: "running rb fg (ISR_INT0 s)"
    using assms(1,3) by (rule running.int0)
  show "running rb fg (rx_ticks rb (False # map (bit b) [0..<8]) (ISR_INT0 s))"
    unfolding map_upt8 rx_ticks.simps
    apply (rule running_tick)+
    apply (rule 0)
    using assms(2)
    apply (simp_all add: ISR_INT0_fields ISR_INT0_switches start_mid_tick data_tick
      rx_sample_fields rx_tick_enabled_fields)
    done
  show "rx_tick_enabled (rx_ticks rb (False # map (bit b) [0..<8]) (ISR_INT0 s))"
    using assms(2)
    by (simp add: map_upt8 ISR_INT0_fields ISR_INT0_switches start_mid_tick data_tick
      rx_sample_fields rx_tick_enabled_fields)
  show "rx_state (rx_ticks rb (False # map (bit b) [0..<8]) (ISR_INT0 s)) = 3"
    using assms(2)
    by (simp add: map_upt8 ISR_INT0_fields start_mid_tick data_tick rx_sample_fields)
qed

lemma rx_frame_idle:
  assumes "rx_state s = 0"
  shows "rx_state (rx_frame rb b s) = 0" and "int0_enabled (rx_frame rb b s)"
proof -
  obtain t where t:
      "rx_frame rb b s = enable_int0 (stop_rx ((publish rb t)\<lparr>rx_state := 0\<rparr>))"
    using rx_frame_publish [OF assms, of rb b] by blast
  show "rx_state (rx_frame rb b s) = 0"
    by (simp add: t enable_int0_def stop_rx_def Let_def)
  show "int0_enabled (rx_frame rb b s)"
    by (simp add: t enable_int0_def stop_rx_def Let_def int0_enabled_def bit_simps INT0_def)
qed

lemma rx_ticks_append: "rx_ticks rb (xs @ ys) s = rx_ticks rb ys (rx_ticks rb xs s)"
  by (induction xs arbitrary: s) simp_all

lemma rx_frame_stop_tick:
  "rx_frame rb b s = ISR_TIMER1_COMPB rb
     (rx_sample True (rx_ticks rb (False # map (bit b) [0..<8]) (ISR_INT0 s)))"
proof -
  have "[False] @ map (bit b) [0..<8] @ [True] = (False # map (bit b) [0..<8]) @ [True]"
    by simp
  then show ?thesis
    unfolding rx_frame_def by (simp only: rx_ticks_append rx_ticks.simps)
qed

lemma running_rx_frame:
  assumes "running rb fg s" "rx_state s = 0" "int0_enabled s"
  shows "running rb fg (rx_frame rb b s)"
  unfolding rx_frame_stop_tick using running_rx_data(1,2) [OF assms] by (rule running_tick)

lemma running_rx_frames:
  "running rb fg s \<Longrightarrow> rx_state s = 0 \<Longrightarrow> int0_enabled s \<Longrightarrow>
     running rb fg (fold (rx_frame rb) bs s) \<and>
     rx_state (fold (rx_frame rb) bs s) = 0 \<and> int0_enabled (fold (rx_frame rb) bs s)"
proof (induction bs arbitrary: s)
  case Nil
  then show ?case
    by simp
next
  case (Cons b bs)
  have "running rb fg (rx_frame rb b s)"
    using Cons.prems by (rule running_rx_frame)
  then show ?case
    using Cons.IH [of "rx_frame rb b s"] rx_frame_idle [OF Cons.prems(2), of rb b] by simp
qed

subsection \<open>The ring under preemption\<close>

text \<open>
  C10 fails on the code: in ring mode every reachable state is to keep \<open>rx_head\<close> and
  \<open>rx_tail\<close> in \<open>[0, RING_BUFFER)\<close>. The B-compare handler advances \<open>rx_tail\<close> when the
  ring overflows, and \<open>fdserial_recv\<close> tests \<open>rx_tail\<close> and increments it in two
  statements, under the comment that \<open>rx_tail\<close> is never to be set to
  \<^verbatim>\<open>RING_BUFFER\<close>; a handler that runs between the two statements breaks that. With 4
  slots: after a power-on reset and \<open>fdserial_init\<close>, five characters arrive with no read
  (\<open>rx_head = 1\<close>, \<open>rx_tail = 2\<close>) and a sixth is on the line up to its last data bit
  (state \<open>s6\<close>). \<open>fdserial_recv\<close> is called, leaves its loop, reads \<open>rx_buf[2]\<close>, finds
  \<open>rx_tail\<close> different from 3 and is about to run \<^verbatim>\<open>rx_tail ++\<close>. The handler now
  samples the stop bit (state \<open>s7\<close>): it stores the sixth byte, advances \<open>rx_head\<close> to 2,
  finds it equal to \<open>rx_tail\<close> and advances \<open>rx_tail\<close> to 3. The foreground then
  increments \<open>rx_tail\<close> to 4 and returns (state \<open>s8\<close>): the program is in a state with
  \<open>rx_tail = RING_BUFFER\<close>, an index outside the array, and the next call of
  \<open>fdserial_recv\<close> moves it on to 5.
\<close>

theorem fdserial_recv_preempted:
  "let s0 = fdserial_init (Some 4) (power_on (Some 4) 0xFF);
       s5 = fold (rx_frame (Some 4)) [1, 2, 3, 4, 5] s0;
       s6 = rx_ticks (Some 4) (False # map (bit (6 :: u8)) [0..<8]) (ISR_INT0 s5);
       s7 = ISR_TIMER1_COMPB (Some 4) (rx_sample True s6);
       s8 = s7\<lparr>rx_tail := rx_tail s7 + 1\<rparr>
   in running (Some 4) Idle s6 \<and> rx_head s6 = 1 \<and> rx_tail s6 = 2 \<and>
      running (Some 4) rx_tail_incr s6 \<and>
      running (Some 4) rx_tail_incr s7 \<and> rx_head s7 = 2 \<and> rx_tail s7 = 3 \<and>
      running (Some 4) Idle s8 \<and> reachable (Some 4) s8 \<and>
      rx_head s8 = 2 \<and> rx_tail s8 = 4 \<and> length (rx_buf s8) = 4 \<and> \<not> ring_ok 4 s8 \<and>
      map_option (\<lambda>(c, t). rx_tail t) (fdserial_recv (Some 4) s8) = Some 5"
proof -
  define s0 where "s0 = fdserial_init (Some 4) (power_on (Some 4) 0xFF)"
  define s5 where "s5 = fold (rx_frame (Some 4)) [1, 2, 3, 4, 5] s0"
  define s6 where "s6 = rx_ticks (Some 4) (False # map (bit (6 :: u8)) [0..<8]) (ISR_INT0 s5)"
  define s7 where "s7 = ISR_TIMER1_COMPB (Some 4) (rx_sample True s6)"
  define s8 where "s8 = s7\<lparr>rx_tail := rx_tail s7 + 1\<rparr>"
  have v6: "rx_head s6 = 1" "rx_tail s6 = 2"
    unfolding s6_def s5_def s0_def by code_simp+
  have v7: "rx_head s7 = 2" "rx_tail s7 = 3" "length (rx_buf s7) = 4"
    unfolding s7_def s6_def s5_def s0_def by code_simp+
  have r0: "running (Some 4) Idle s0"
    unfolding s0_def by (rule running_init) (rule running.reset)
  have i0: "rx_state s0 = 0" "int0_enabled s0"
    unfolding s0_def by code_simp+
  have r5: "running (Some 4) Idle s5 \<and> rx_state s5 = 0 \<and> int0_enabled s5"
    unfolding s5_def using r0 i0 by (rule running_rx_frames)
  have r6: "running (Some 4) Idle s6" and e6: "rx_tick_enabled s6"
    unfolding s6_def using r5 by (blast intro: running_rx_data)+
  have "running (Some 4) (if uint (rx_tail s6) = int 4 - 1 then rx_tail_wrap else rx_tail_incr) s6"
    using r6 by (rule running_recv_test) (simp add: v6)
  then have p6: "running (Some 4) rx_tail_incr s6"
    by (simp add: v6)
  have p7: "running (Some 4) rx_tail_incr s7"
    unfolding s7_def using p6 e6 by (rule running_tick)
  have r8: "running (Some 4) Idle s8"
    unfolding s8_def using p7 by (rule running_rx_tail_incr)
  then have "reachable (Some 4) s8"
    unfolding reachable_def by (rule exI)
  moreover have "rx_head s8 = 2" "rx_tail s8 = 4" "length (rx_buf s8) = 4" "\<not> ring_ok 4 s8"
    by (simp_all add: s8_def v7 ring_ok_def)
  moreover have "map_option (\<lambda>(c, t). rx_tail t) (fdserial_recv (Some 4) s8) = Some 5"
    by (simp add: fdserial_recv_def advance_def Let_def s8_def v7)
  ultimately show ?thesis
    using r6 v6 p6 p7 v7 r8
    unfolding Let_def s0_def [symmetric] s5_def [symmetric] s6_def [symmetric]
      s7_def [symmetric] s8_def [symmetric]
    by simp
qed

subsection \<open>The transmit tick and the alarm\<close>

lemma tx_delay_tick:
  "tx_state s = 5 \<Longrightarrow>
   ISR_TIMER1_COMPA s =
     (if delay s = 1 then s\<lparr>delay := 0, send_ready := 1, tx_state := 0\<rparr>
      else s\<lparr>delay := delay s - 1\<rparr>)"
  by (simp add: ISR_TIMER1_COMPA_def Let_def)

lemma of_nat_Suc_eq_1_u32: "Suc k < 2 ^ 32 \<Longrightarrow> ((of_nat (Suc k) :: u32) = 1) = (k = 0)"
  by (auto simp: word_unat_eq_iff unat_word_ariths unat_of_nat)

lemma tx_delay_run:
  "tx_state s = 5 \<Longrightarrow> delay s = of_nat (Suc k) \<Longrightarrow> Suc k < 2 ^ 32 \<Longrightarrow>
     tx_state (tx_ticks (Suc k) s) = 0 \<and> send_ready (tx_ticks (Suc k) s) = 1 \<and>
     TIMSK (tx_ticks (Suc k) s) = TIMSK s"
proof (induction k arbitrary: s)
  case 0
  then show ?case
    by (simp add: tx_delay_tick)
next
  case (Suc k)
  let ?s1 = "ISR_TIMER1_COMPA s"
  have ne: "delay s \<noteq> 1"
    using Suc.prems(2,3) of_nat_Suc_eq_1_u32 [of "Suc k"] by simp
  have s1: "?s1 = s\<lparr>delay := delay s - 1\<rparr>"
    using Suc.prems(1) ne by (simp add: tx_delay_tick)
  have a: "tx_state ?s1 = 5" "TIMSK ?s1 = TIMSK s"
    using Suc.prems(1) by (simp_all add: s1)
  have b: "delay ?s1 = of_nat (Suc k)"
    using Suc.prems(2) by (simp add: s1)
  have c: "Suc k < 2 ^ 32"
    using Suc.prems(3) by simp
  show ?case
    using Suc.IH [OF a(1) b c] a(2) by simp
qed

text \<open>
  C1 fails on the code: \<open>fdserial_alarm\<close> enters the delay state without enabling the
  A-compare interrupt. After a power-on reset and \<open>fdserial_init\<close>, a call of
  \<open>fdserial_alarm\<close> reaches a state with \<open>tx_state = 5\<close> in which the interrupt is
  disabled; no handler that could count the delay down or set \<open>send_ready\<close> is enabled
  in it, so a following \<open>fdserial_send\<close> blocks. Had the interrupt been enabled there, the
  ninth tick would let the delay expire and return to idle with the interrupt still
  enabled: the delay state does not disable it either.
\<close>

theorem alarm_tx_tick_disabled:
  "reachable None (the (fdserial_alarm 1 (fdserial_init None (power_on None 0xFF)))) \<and>
   tx_state (the (fdserial_alarm 1 (fdserial_init None (power_on None 0xFF)))) = 5 \<and>
   \<not> tx_tick_enabled (the (fdserial_alarm 1 (fdserial_init None (power_on None 0xFF)))) \<and>
   \<not> rx_tick_enabled (the (fdserial_alarm 1 (fdserial_init None (power_on None 0xFF)))) \<and>
   fdserial_send 0x41 (the (fdserial_alarm 1 (fdserial_init None (power_on None 0xFF)))) = None \<and>
   tx_state (tx_ticks 9 (start_tx
     (the (fdserial_alarm 1 (fdserial_init None (power_on None 0xFF)))))) = 0 \<and>
   send_ready (tx_ticks 9 (start_tx
     (the (fdserial_alarm 1 (fdserial_init None (power_on None 0xFF)))))) = 1 \<and>
   tx_tick_enabled (tx_ticks 9 (start_tx
     (the (fdserial_alarm 1 (fdserial_init None (power_on None 0xFF))))))"
proof -
  let ?i = "fdserial_init None (power_on None 0xFF)"
  have i: "send_ready ?i = 1" "TIMSK ?i = 0"
    by (simp_all add: fdserial_init_def Let_def enable_int0_def starttimer_def stoptimer_def
        power_on_def)
  obtain s' where s': "fdserial_alarm 1 ?i = Some s'"
    using i(1) by (simp add: fdserial_alarm_eq)
  have f: "tx_state s' = 5" "TIMSK s' = 0" "send_ready s' = 0"
    using s' i by (auto simp: fdserial_alarm_eq)
  have "running None Idle ?i"
    by (rule running_init) (rule running.reset)
  then have "running None Idle s'"
    using s' by (rule running_alarm)
  then have r: "reachable None s'"
    unfolding reachable_def by (rule exI)
  have t: "alarm_ticks 1 = 2000"
    by (simp add: alarm_ticks_def CPU_FREQ_def PRESCALER_DIVISOR_def)
  have d: "delay (start_tx s') = of_nat (Suc 8)"
    using s' i by (auto simp: fdserial_alarm_eq start_tx_def t SERIAL_TOP_def)
  have st: "tx_state (start_tx s') = 5"
    using f(1) by (simp add: start_tx_fields)
  have "tx_state (tx_ticks (Suc 8) (start_tx s')) = 0 \<and>
      send_ready (tx_ticks (Suc 8) (start_tx s')) = 1 \<and>
      TIMSK (tx_ticks (Suc 8) (start_tx s')) = TIMSK (start_tx s')"
    using st d by (rule tx_delay_run) simp
  then have e: "tx_state (tx_ticks 9 (start_tx s')) = 0 \<and>
      send_ready (tx_ticks 9 (start_tx s')) = 1 \<and>
      tx_tick_enabled (tx_ticks 9 (start_tx s'))"
    using start_tx_fields(6) [of s'] by (simp add: tx_tick_enabled_def eval_nat_numeral)
  show ?thesis
    using r f e by (simp add: s' tx_tick_enabled_def rx_tick_enabled_def fdserial_send_def)
qed

subsection \<open>Overflow of the ring\<close>

lemma drop_snoc_keep:
  "drop (length (drop (length xs - k) xs @ [b]) - k) (drop (length xs - k) xs @ [b]) =
   drop (length (xs @ [b]) - k) (xs @ [b])"
  by (cases "length xs \<le> k") (auto simp: Suc_diff_le)

lemma ring_contents_switches:
  "ring_contents n (enable_int0 (stop_rx (s\<lparr>rx_state := a\<rparr>))) = ring_contents n s"
  "ring_ok n (enable_int0 (stop_rx (s\<lparr>rx_state := a\<rparr>))) = ring_ok n s"
  "rx_state (enable_int0 (stop_rx (s\<lparr>rx_state := a\<rparr>))) = a"
  by (simp_all add: ring_contents_def ring_ok_def enable_int0_def stop_rx_def Let_def)

lemma rx_frame_ring:
  assumes "rx_state s = 0" "0 < n" "n \<le> 256" "ring_ok n s"
  shows "ring_contents n (rx_frame (Some n) b s) =
           drop (length (ring_contents n s @ [b]) - (n - 1)) (ring_contents n s @ [b])"
    and "ring_ok n (rx_frame (Some n) b s)"
    and "rx_state (rx_frame (Some n) b s) = 0"
proof -
  obtain t where t:
      "rx_frame (Some n) b s = enable_int0 (stop_rx ((publish (Some n) t)\<lparr>rx_state := 0\<rparr>))"
      "recv_shift t = b" "rx_buf t = rx_buf s" "rx_head t = rx_head s" "rx_tail t = rx_tail s"
    using rx_frame_publish [OF assms(1), of "Some n" b] by blast
  have ok: "ring_ok n t"
    using assms(4) t(3,4,5) by (simp add: ring_ok_def)
  have c: "ring_contents n t = ring_contents n s"
    using t(3,4,5) by (simp add: ring_contents_def)
  show "ring_contents n (rx_frame (Some n) b s) =
      drop (length (ring_contents n s @ [b]) - (n - 1)) (ring_contents n s @ [b])"
    using ring_contents_publish [OF assms(2,3) ok]
    by (simp add: t(1,2) ring_contents_switches c)
  show "ring_ok n (rx_frame (Some n) b s)"
    using ring_ok_publish [OF assms(2) ok] by (simp add: t(1) ring_contents_switches)
  show "rx_state (rx_frame (Some n) b s) = 0"
    by (simp add: t(1) ring_contents_switches)
qed

lemma fold_rx_frame_ring:
  assumes "0 < n" "n \<le> 256"
  shows "rx_state s = 0 \<Longrightarrow> ring_ok n s \<Longrightarrow>
     ring_contents n (fold (rx_frame (Some n)) bs s) =
       drop (length (ring_contents n s @ bs) - (n - 1)) (ring_contents n s @ bs) \<and>
     ring_ok n (fold (rx_frame (Some n)) bs s) \<and>
     rx_state (fold (rx_frame (Some n)) bs s) = 0"
proof (induction bs arbitrary: s rule: rev_induct)
  case Nil
  have "ring_count n (unat (rx_head s)) (unat (rx_tail s)) < n"
    using Nil.prems(2) by (intro ring_count_lt) (simp_all add: ring_ok_def)
  then have "length (ring_contents n s) \<le> n - 1"
    by (simp add: length_ring_contents)
  then show ?case
    using Nil.prems by simp
next
  case (snoc b bs)
  let ?s' = "fold (rx_frame (Some n)) bs s"
  have ih: "ring_contents n ?s' =
      drop (length (ring_contents n s @ bs) - (n - 1)) (ring_contents n s @ bs)"
      "ring_ok n ?s'" "rx_state ?s' = 0"
    using snoc.IH [OF snoc.prems] by simp_all
  show ?case
    using rx_frame_ring [OF ih(3) assms ih(2), of b]
      drop_snoc_keep [of "ring_contents n s @ bs" "n - 1" b]
    by (simp add: ih(1))
qed

text \<open>
  C2, as the code has it: in ring mode with \<open>n\<close> slots, in a state with both indices
  inside the array and the receive engine idle, the characters \<open>bs\<close> that
  arrive with no read in between leave, of the bytes that were unread before followed by
  \<open>bs\<close>, the newest \<open>n - 1\<close> in the ring: so many calls of \<open>fdserial_recv\<close> return them,
  oldest first, and one more call blocks. With 4 slots the six characters
  1, 2, 3, 4, 5, 6 leave three bytes: \<open>fdserial_recv\<close> returns 4, then 5, then 6, and a
  fourth call blocks (the oldest three are dropped).
\<close>

theorem ring_overflow_keeps_newest:
  assumes "ring_ok n s" and "rx_state s = 0" and "0 < n" and "n \<le> 256"
  shows "ring_contents n (fold (rx_frame (Some n)) bs s) =
           drop (length (ring_contents n s @ bs) - (n - 1)) (ring_contents n s @ bs) \<and>
         map_option fst (recv_many (Some n)
           (length (drop (length (ring_contents n s @ bs) - (n - 1)) (ring_contents n s @ bs)))
           (fold (rx_frame (Some n)) bs s)) =
           Some (drop (length (ring_contents n s @ bs) - (n - 1)) (ring_contents n s @ bs)) \<and>
         recv_many (Some n)
           (Suc (length (drop (length (ring_contents n s @ bs) - (n - 1))
              (ring_contents n s @ bs))))
           (fold (rx_frame (Some n)) bs s) = None"
proof -
  have ok: "ring_ok n s"
    by (rule assms(1))
  have f: "ring_contents n (fold (rx_frame (Some n)) bs s) =
      drop (length (ring_contents n s @ bs) - (n - 1)) (ring_contents n s @ bs)"
      "ring_ok n (fold (rx_frame (Some n)) bs s)"
    using fold_rx_frame_ring [OF assms(3,4) assms(2) ok, of bs] by simp_all
  show ?thesis
    using recv_many_ring [OF assms(3,4) f(2) refl] by (simp only: f(1) simp_thms)
qed

theorem ring_overflow_keeps_newest_witness:
  "ring_ok 4 (fdserial_init (Some 4) (power_on (Some 4) 0xFF)) \<and>
   rx_state (fdserial_init (Some 4) (power_on (Some 4) 0xFF)) = 0 \<and>
   (0 :: nat) < 4 \<and> (4 :: nat) \<le> 256 \<and>
   ring_contents 4 (fold (rx_frame (Some 4)) [1, 2, 3, 4, 5, 6]
     (fdserial_init (Some 4) (power_on (Some 4) 0xFF))) = [4, 5, 6] \<and>
   map_option fst (recv_many (Some 4) 3 (fold (rx_frame (Some 4)) [1, 2, 3, 4, 5, 6]
     (fdserial_init (Some 4) (power_on (Some 4) 0xFF)))) = Some [4, 5, 6] \<and>
   recv_many (Some 4) 4 (fold (rx_frame (Some 4)) [1, 2, 3, 4, 5, 6]
     (fdserial_init (Some 4) (power_on (Some 4) 0xFF))) = None"
proof -
  let ?s = "fdserial_init (Some 4) (power_on (Some 4) 0xFF)"
  have r: "ring_ok 4 ?s"
    by (rule ring_ok_init) (simp_all add: power_on_def)
  have i: "rx_state ?s = 0" "rx_head ?s = 0" "rx_tail ?s = 0"
    by (simp_all add: fdserial_init_def Let_def enable_int0_def starttimer_def stoptimer_def)
  have e: "ring_contents 4 ?s = []"
    by (simp add: ring_contents_def ring_list_def ring_count_def i)
  have k: "drop (length (ring_contents 4 ?s @ [1, 2, 3, 4, 5, 6]) - (4 - 1))
      (ring_contents 4 ?s @ [1, 2, 3, 4, 5, 6]) = [4, 5, 6 :: u8]"
    by (simp add: e)
  have n: "(0 :: nat) < 4" "(4 :: nat) \<le> 256"
    by simp_all
  show ?thesis
    using r i(1) ring_overflow_keeps_newest [OF r i(1) n, of "[1, 2, 3, 4, 5, 6]"]
    unfolding k by (simp add: numeral_3_eq_3 [symmetric] eval_nat_numeral(3) [symmetric])
qed

text \<open>The scenario of C2 as the specification states it: four reads do not return 3, 4, 5, 6.\<close>

theorem ring_overflow_counterexample:
  "map_option fst (recv_many (Some 4) 4
     (fold (rx_frame (Some 4)) [1, 2, 3, 4, 5, 6]
        (fdserial_init (Some 4) (power_on (Some 4) 0xFF)))) \<noteq> Some [3, 4, 5, 6] \<and>
   map_option fst (fdserial_recv (Some 4)
     (fold (rx_frame (Some 4)) [1, 2, 3, 4, 5, 6]
        (fdserial_init (Some 4) (power_on (Some 4) 0xFF)))) = Some 4"
  by code_simp

end
